theory Spec2Isabelle
  imports Complex_Main "HOL-Library.Word"
begin

unbundle bit_operations_syntax

section \<open>Scalars modulo the group order\<close>

text \<open>
  The scalar file keeps a \<open>Scalar\<close> as one Montgomery-domain element of four 64-bit
  limbs. Bytes are \<open>8 word\<close>, byte slices are lists, and a little-endian byte string
  denotes the integer \<open>le_val\<close>.
\<close>

type_synonym byte = "8 word"

fun le_val :: "byte list \<Rightarrow> int" where
  "le_val [] = 0"
| "le_val (b # bs) = uint b + 256 * le_val bs"

definition ell :: int where
  "ell = 2 ^ 252 + 27742317777372353535851937790883648493"

definition scZeroBytes :: "byte list" where
  "scZeroBytes = [0, 0, 0, 0, 0, 0, 0, 0, 0, 0, 0, 0, 0, 0, 0, 0,
                  0, 0, 0, 0, 0, 0, 0, 0, 0, 0, 0, 0, 0, 0, 0, 0]"

definition scOneBytes :: "byte list" where
  "scOneBytes = [1, 0, 0, 0, 0, 0, 0, 0, 0, 0, 0, 0, 0, 0, 0, 0,
                 0, 0, 0, 0, 0, 0, 0, 0, 0, 0, 0, 0, 0, 0, 0, 0]"

definition scMinusOneBytes :: "byte list" where
  "scMinusOneBytes = [236, 211, 245, 92, 26, 99, 18, 88, 214, 156, 247, 162, 222, 249, 222, 20,
                      0, 0, 0, 0, 0, 0, 0, 0, 0, 0, 0, 0, 0, 0, 0, 16]"

subsection \<open>The Montgomery-domain primitives\<close>

text \<open>
  Modelled from the spec: the \<open>fiat_sc255_*\<close> primitives (to and from the canonical byte
  encoding, to and from the Montgomery domain, add, sub, mul, negate) are called by the
  scalar file and are not among the source files. A domain element is modelled by the
  integer its four limbs denote; the Montgomery radix is \<open>2 ^ 256\<close>, which is what the
  source's limbs of \<open>scOne\<close> and \<open>scMinusOne\<close> encode.
\<close>

type_synonym fiat_sc255_montgomery_domain_field_element = int

definition montR :: int where
  "montR = 2 ^ 256"

definition montRinv :: int where
  "montRinv = 4458503529701987551646482192314240623644693141688353256590997718326214331684"

definition fiat_sc255_from_bytes :: "byte list \<Rightarrow> int" where
  "fiat_sc255_from_bytes b = le_val b"

definition fiat_sc255_to_bytes :: "int \<Rightarrow> byte list" where
  "fiat_sc255_to_bytes x = map (\<lambda>i. word_of_int (x div 256 ^ i)) [0..<32]"

definition fiat_sc255_to_montgomery :: "int \<Rightarrow> fiat_sc255_montgomery_domain_field_element" where
  "fiat_sc255_to_montgomery x = (x * montR) mod ell"

definition fiat_sc255_from_montgomery :: "fiat_sc255_montgomery_domain_field_element \<Rightarrow> int" where
  "fiat_sc255_from_montgomery a = (a * montRinv) mod ell"

definition fiat_sc255_add :: "int \<Rightarrow> int \<Rightarrow> int" where
  "fiat_sc255_add a b = (a + b) mod ell"

definition fiat_sc255_sub :: "int \<Rightarrow> int \<Rightarrow> int" where
  "fiat_sc255_sub a b = (a - b) mod ell"

definition fiat_sc255_opp :: "int \<Rightarrow> int" where
  "fiat_sc255_opp a = (- a) mod ell"

definition fiat_sc255_mul :: "int \<Rightarrow> int \<Rightarrow> int" where
  "fiat_sc255_mul a b = (a * b * montRinv) mod ell"

subsection \<open>The Scalar type and its store\<close>

text \<open>
  Every method takes its receiver and its operands by pointer, and they may alias. A
  store maps an address to the scalar held there; a method returns the updated store
  (its Go result is the receiver's address again).
\<close>

record Scalar =
  limbs :: fiat_sc255_montgomery_domain_field_element

type_synonym addr = nat
type_synonym store = "addr \<Rightarrow> Scalar"

definition scOne :: Scalar where
  "scOne = \<lparr>limbs = 0xd6ec31748d98951d + 0xc6ef5bf4737dcf70 * 2 ^ 64
               + 0xfffffffffffffffe * 2 ^ 128 + 0xfffffffffffffff * 2 ^ 192\<rparr>"

definition scMinusOne :: Scalar where
  "scMinusOne = \<lparr>limbs = 0x812631a5cf5d3ed0 + 0x4def9dea2f79cd65 * 2 ^ 64 + 1 * 2 ^ 128 + 0 * 2 ^ 192\<rparr>"

definition NewScalar :: Scalar where
  "NewScalar = \<lparr>limbs = 0\<rparr>"

definition Scalar_Add :: "store \<Rightarrow> addr \<Rightarrow> addr \<Rightarrow> addr \<Rightarrow> store" where
  "Scalar_Add h s x y = h(s := \<lparr>limbs = fiat_sc255_add (limbs (h x)) (limbs (h y))\<rparr>)"

definition Scalar_Subtract :: "store \<Rightarrow> addr \<Rightarrow> addr \<Rightarrow> addr \<Rightarrow> store" where
  "Scalar_Subtract h s x y = h(s := \<lparr>limbs = fiat_sc255_sub (limbs (h x)) (limbs (h y))\<rparr>)"

definition Scalar_Negate :: "store \<Rightarrow> addr \<Rightarrow> addr \<Rightarrow> store" where
  "Scalar_Negate h s x = h(s := \<lparr>limbs = fiat_sc255_opp (limbs (h x))\<rparr>)"

definition Scalar_Multiply :: "store \<Rightarrow> addr \<Rightarrow> addr \<Rightarrow> addr \<Rightarrow> store" where
  "Scalar_Multiply h s x y = h(s := \<lparr>limbs = fiat_sc255_mul (limbs (h x)) (limbs (h y))\<rparr>)"

definition Scalar_MultiplyAdd :: "store \<Rightarrow> addr \<Rightarrow> addr \<Rightarrow> addr \<Rightarrow> addr \<Rightarrow> store" where
  "Scalar_MultiplyAdd h s x y z = Scalar_Add (Scalar_Multiply h s x y) s s z"

definition Scalar_Bytes :: "Scalar \<Rightarrow> byte list" where
  "Scalar_Bytes sc = fiat_sc255_to_bytes (fiat_sc255_from_montgomery (limbs sc))"

text \<open>The integer a scalar stands for: the value of its canonical encoding.\<close>

definition scalar_value :: "Scalar \<Rightarrow> int" where
  "scalar_value sc = le_val (Scalar_Bytes sc)"

subsection \<open>Canonical decoding\<close>

fun isReduced_loop :: "nat \<Rightarrow> byte list \<Rightarrow> bool" where
  "isReduced_loop 0 bs = True"
| "isReduced_loop (Suc i) bs =
     (if bs ! i > scMinusOneBytes ! i then False
      else if bs ! i < scMinusOneBytes ! i then True
      else isReduced_loop i bs)"

definition isReduced :: "byte list \<Rightarrow> bool" where
  "isReduced bs = (if length bs \<noteq> 32 then False else isReduced_loop (length bs) bs)"

text \<open>
  A decoder returns the store together with either the error text or the receiver's
  address. Go's \<open>copy\<close> overwrites the front of the destination with as many bytes of
  the source as fit.
\<close>

definition copy_bytes :: "byte list \<Rightarrow> byte list \<Rightarrow> byte list" where
  "copy_bytes dst src = take (length dst) src @ drop (length src) dst"

definition Scalar_SetCanonicalBytes :: "store \<Rightarrow> addr \<Rightarrow> byte list \<Rightarrow> store \<times> (string + addr)" where
  "Scalar_SetCanonicalBytes h s x =
     (if length x \<noteq> 32 then (h, Inl ''invalid scalar length'')
      else let ss = copy_bytes (replicate 32 0) x in
        if \<not> isReduced ss then (h, Inl ''invalid scalar encoding'')
        else (h(s := \<lparr>limbs = fiat_sc255_to_montgomery (fiat_sc255_from_bytes ss)\<rparr>), Inr s))"

text \<open>Three 32-byte strings that are not canonical: \<open>l\<close>, \<open>l + 1\<close> and \<open>2 ^ 256 - 1\<close>.\<close>

definition ell_bytes :: "byte list" where
  "ell_bytes = [237, 211, 245, 92, 26, 99, 18, 88, 214, 156, 247, 162, 222, 249, 222, 20,
                0, 0, 0, 0, 0, 0, 0, 0, 0, 0, 0, 0, 0, 0, 0, 16]"

definition ell_plus_one_bytes :: "byte list" where
  "ell_plus_one_bytes = [238, 211, 245, 92, 26, 99, 18, 88, 214, 156, 247, 162, 222, 249, 222, 20,
                         0, 0, 0, 0, 0, 0, 0, 0, 0, 0, 0, 0, 0, 0, 0, 16]"

definition all_ones_bytes :: "byte list" where
  "all_ones_bytes = [255, 255, 255, 255, 255, 255, 255, 255, 255, 255, 255, 255, 255, 255, 255, 255,
                     255, 255, 255, 255, 255, 255, 255, 255, 255, 255, 255, 255, 255, 255, 255, 255]"


subsection \<open>The wide reduction\<close>

text \<open>
  \<open>scReduce\<close> works on \<open>int64\<close> values: \<open>+\<close>, \<open>-\<close> and \<open>*\<close> wrap, \<open>>>\<close> is the
  arithmetic shift \<open>signed_drop_bit\<close>, \<open><<\<close> is \<open>push_bit\<close>, and \<open>byte(x)\<close> keeps the low
  eight bits. The 24 variables \<open>s0\<close> to \<open>s23\<close> are the entries 0 to 23 of a list.
\<close>

type_synonym int64 = "64 word"

definition load3 :: "byte list \<Rightarrow> int64" where
  "load3 inp =
     (let r = ucast (inp ! 0);
          r = r OR push_bit 8 (ucast (inp ! 1));
          r = r OR push_bit 16 (ucast (inp ! 2))
      in r)"

definition load4 :: "byte list \<Rightarrow> int64" where
  "load4 inp =
     (let r = ucast (inp ! 0);
          r = r OR push_bit 8 (ucast (inp ! 1));
          r = r OR push_bit 16 (ucast (inp ! 2));
          r = r OR push_bit 24 (ucast (inp ! 3))
      in r)"

definition scReduce_load :: "byte list \<Rightarrow> int64 list" where
  "scReduce_load s =
     [2097151 AND load3 s,
      2097151 AND signed_drop_bit 5 (load4 (drop 2 s)),
      2097151 AND signed_drop_bit 2 (load3 (drop 5 s)),
      2097151 AND signed_drop_bit 7 (load4 (drop 7 s)),
      2097151 AND signed_drop_bit 4 (load4 (drop 10 s)),
      2097151 AND signed_drop_bit 1 (load3 (drop 13 s)),
      2097151 AND signed_drop_bit 6 (load4 (drop 15 s)),
      2097151 AND signed_drop_bit 3 (load3 (drop 18 s)),
      2097151 AND load3 (drop 21 s),
      2097151 AND signed_drop_bit 5 (load4 (drop 23 s)),
      2097151 AND signed_drop_bit 2 (load3 (drop 26 s)),
      2097151 AND signed_drop_bit 7 (load4 (drop 28 s)),
      2097151 AND signed_drop_bit 4 (load4 (drop 31 s)),
      2097151 AND signed_drop_bit 1 (load3 (drop 34 s)),
      2097151 AND signed_drop_bit 6 (load4 (drop 36 s)),
      2097151 AND signed_drop_bit 3 (load3 (drop 39 s)),
      2097151 AND load3 (drop 42 s),
      2097151 AND signed_drop_bit 5 (load4 (drop 44 s)),
      2097151 AND signed_drop_bit 2 (load3 (drop 47 s)),
      2097151 AND signed_drop_bit 7 (load4 (drop 49 s)),
      2097151 AND signed_drop_bit 4 (load4 (drop 52 s)),
      2097151 AND signed_drop_bit 1 (load3 (drop 55 s)),
      2097151 AND signed_drop_bit 6 (load4 (drop 57 s)),
      signed_drop_bit 3 (load4 (drop 60 s))]"

text \<open>
  The block of seven assignments that folds limb \<open>k\<close> into the six limbs \<open>k - 12\<close> to
  \<open>k - 7\<close> and clears it, as in \<open>s11 += s23 * 666643\<close> to \<open>s23 = 0\<close>.
\<close>

definition fold_limb :: "nat \<Rightarrow> int64 list \<Rightarrow> int64 list" where
  "fold_limb k t =
     (let t = t[k - 12 := t ! (k - 12) + t ! k * 666643];
          t = t[k - 11 := t ! (k - 11) + t ! k * 470296];
          t = t[k - 10 := t ! (k - 10) + t ! k * 654183];
          t = t[k - 9 := t ! (k - 9) - t ! k * 997805];
          t = t[k - 8 := t ! (k - 8) + t ! k * 136657];
          t = t[k - 7 := t ! (k - 7) - t ! k * 683901];
          t = t[k := 0]
      in t)"

text \<open>
  The two carry steps out of limb \<open>i\<close>: \<open>carry[i] = (si + (1 << 20)) >> 21\<close> for the
  rounding one and \<open>carry[i] = si >> 21\<close> for the flooring one, then
  \<open>s(i+1) += carry[i]\<close> and \<open>si -= carry[i] << 21\<close>.
\<close>

definition carry_round :: "nat \<Rightarrow> int64 list \<Rightarrow> int64 list" where
  "carry_round i t =
     (let carry = signed_drop_bit 21 (t ! i + push_bit 20 1);
          t = t[i + 1 := t ! (i + 1) + carry];
          t = t[i := t ! i - push_bit 21 carry]
      in t)"

definition carry_floor :: "nat \<Rightarrow> int64 list \<Rightarrow> int64 list" where
  "carry_floor i t =
     (let carry = signed_drop_bit 21 (t ! i);
          t = t[i + 1 := t ! (i + 1) + carry];
          t = t[i := t ! i - push_bit 21 carry]
      in t)"

text \<open>The steps between loading and packing, in the order of the source.\<close>

definition scReduce_first :: "int64 list \<Rightarrow> int64 list" where
  "scReduce_first t =
     (let t = fold fold_limb [23, 22, 21, 20, 19, 18] t;
          t = fold carry_round [6, 8, 10, 12, 14, 16] t;
          t = fold carry_round [7, 9, 11, 13, 15] t;
          t = fold fold_limb [17, 16, 15, 14, 13, 12] t;
          t = fold carry_round [0, 2, 4, 6, 8, 10] t;
          t = fold carry_round [1, 3, 5, 7, 9, 11] t;
          t = fold_limb 12 t;
          t = fold carry_floor [0, 1, 2, 3, 4, 5, 6, 7, 8, 9, 10, 11] t
      in t)"

definition scReduce_last :: "int64 list \<Rightarrow> int64 list" where
  "scReduce_last t =
     (let t = fold_limb 12 t;
          t = fold carry_floor [0, 1, 2, 3, 4, 5, 6, 7, 8, 9, 10] t
      in t)"

definition scReduce_pack :: "int64 list \<Rightarrow> byte list" where
  "scReduce_pack t =
     [ucast (signed_drop_bit 0 (t ! 0)),
      ucast (signed_drop_bit 8 (t ! 0)),
      ucast (signed_drop_bit 16 (t ! 0) OR push_bit 5 (t ! 1)),
      ucast (signed_drop_bit 3 (t ! 1)),
      ucast (signed_drop_bit 11 (t ! 1)),
      ucast (signed_drop_bit 19 (t ! 1) OR push_bit 2 (t ! 2)),
      ucast (signed_drop_bit 6 (t ! 2)),
      ucast (signed_drop_bit 14 (t ! 2) OR push_bit 7 (t ! 3)),
      ucast (signed_drop_bit 1 (t ! 3)),
      ucast (signed_drop_bit 9 (t ! 3)),
      ucast (signed_drop_bit 17 (t ! 3) OR push_bit 4 (t ! 4)),
      ucast (signed_drop_bit 4 (t ! 4)),
      ucast (signed_drop_bit 12 (t ! 4)),
      ucast (signed_drop_bit 20 (t ! 4) OR push_bit 1 (t ! 5)),
      ucast (signed_drop_bit 7 (t ! 5)),
      ucast (signed_drop_bit 15 (t ! 5) OR push_bit 6 (t ! 6)),
      ucast (signed_drop_bit 2 (t ! 6)),
      ucast (signed_drop_bit 10 (t ! 6)),
      ucast (signed_drop_bit 18 (t ! 6) OR push_bit 3 (t ! 7)),
      ucast (signed_drop_bit 5 (t ! 7)),
      ucast (signed_drop_bit 13 (t ! 7)),
      ucast (signed_drop_bit 0 (t ! 8)),
      ucast (signed_drop_bit 8 (t ! 8)),
      ucast (signed_drop_bit 16 (t ! 8) OR push_bit 5 (t ! 9)),
      ucast (signed_drop_bit 3 (t ! 9)),
      ucast (signed_drop_bit 11 (t ! 9)),
      ucast (signed_drop_bit 19 (t ! 9) OR push_bit 2 (t ! 10)),
      ucast (signed_drop_bit 6 (t ! 10)),
      ucast (signed_drop_bit 14 (t ! 10) OR push_bit 7 (t ! 11)),
      ucast (signed_drop_bit 1 (t ! 11)),
      ucast (signed_drop_bit 9 (t ! 11)),
      ucast (signed_drop_bit 17 (t ! 11))]"

definition scReduce :: "byte list \<Rightarrow> byte list" where
  "scReduce s = scReduce_pack (scReduce_last (scReduce_first (scReduce_load s)))"

subsection \<open>Decoding with reduction\<close>

definition Scalar_SetUniformBytes :: "store \<Rightarrow> addr \<Rightarrow> byte list \<Rightarrow> store \<times> (string + addr)" where
  "Scalar_SetUniformBytes h s x =
     (if length x \<noteq> 64 then (h, Inl ''edwards25519: invalid SetUniformBytes input length'')
      else
        let wideBytes = copy_bytes (replicate 64 0) x;
            reduced = scReduce wideBytes
        in (h(s := \<lparr>limbs = fiat_sc255_to_montgomery (fiat_sc255_from_bytes reduced)\<rparr>), Inr s))"

definition Scalar_SetBytesWithClamping :: "store \<Rightarrow> addr \<Rightarrow> byte list \<Rightarrow> store \<times> (string + addr)" where
  "Scalar_SetBytesWithClamping h s x =
     (if length x \<noteq> 32 then (h, Inl ''edwards25519: invalid SetBytesWithClamping input length'')
      else
        let wideBytes = copy_bytes (replicate 64 0) x;
            wideBytes = wideBytes[0 := wideBytes ! 0 AND 248];
            wideBytes = wideBytes[31 := wideBytes ! 31 AND 63];
            wideBytes = wideBytes[31 := wideBytes ! 31 OR 64];
            reduced = scReduce wideBytes
        in (h(s := \<lparr>limbs = fiat_sc255_to_montgomery (fiat_sc255_from_bytes reduced)\<rparr>), Inr s))"


subsection \<open>Digit expansions\<close>

text \<open>
  Both expansions start from \<open>b := s.Bytes()\<close> and work on these 32 bytes. Their digits
  are \<open>int8\<close> values, read with \<open>sint\<close>; a panic is the \<open>Inl\<close> of its message.
\<close>

type_synonym int8 = "8 word"
type_synonym uint64 = "64 word"

text \<open>\<open>binary.LittleEndian.Uint64\<close> of a slice of at least eight bytes.\<close>

definition LittleEndian_Uint64 :: "byte list \<Rightarrow> uint64" where
  "LittleEndian_Uint64 b =
     ucast (b ! 0) OR push_bit 8 (ucast (b ! 1)) OR push_bit 16 (ucast (b ! 2))
       OR push_bit 24 (ucast (b ! 3)) OR push_bit 32 (ucast (b ! 4)) OR push_bit 40 (ucast (b ! 5))
       OR push_bit 48 (ucast (b ! 6)) OR push_bit 56 (ucast (b ! 7))"

text \<open>
  The loop \<open>for pos < 256\<close>. The position and the width are unsigned machine integers
  that stay below 264 and 9 here, so they are natural numbers. With \<open>w = 0\<close> the loop
  would not advance, hence the function is partial.
\<close>

partial_function (option) nonAdjacentForm_loop ::
    "nat \<Rightarrow> uint64 list \<Rightarrow> nat \<Rightarrow> uint64 \<Rightarrow> int8 list \<Rightarrow> int8 list option" where
  "nonAdjacentForm_loop w digits pos carry naf =
     (if pos < 256 then
        let width = (push_bit w 1 :: uint64);
            windowMask = width - 1;
            indexU64 = pos div 64;
            indexBit = pos mod 64;
            bitBuf = (if indexBit < 64 - w then drop_bit indexBit (digits ! indexU64)
                      else drop_bit indexBit (digits ! indexU64)
                             OR push_bit (64 - indexBit) (digits ! (1 + indexU64)));
            window = carry + (bitBuf AND windowMask)
        in if window AND 1 = 0 then nonAdjacentForm_loop w digits (pos + 1) carry naf
           else if window < width div 2
             then nonAdjacentForm_loop w digits (pos + w) 0 (naf[pos := ucast window])
             else nonAdjacentForm_loop w digits (pos + w) 1 (naf[pos := ucast window - ucast width])
      else Some naf)"

declare nonAdjacentForm_loop.simps [code]

definition nonAdjacentForm_bytes :: "byte list \<Rightarrow> nat \<Rightarrow> (string + int8 list) option" where
  "nonAdjacentForm_bytes b w =
     (if b ! 31 > 127 then Some (Inl ''scalar has high bit set illegally'')
      else if w < 2 then Some (Inl ''w must be at least 2 by the definition of NAF'')
      else if w > 8 then Some (Inl ''NAF digits must fit in int8'')
      else
        let naf = replicate 256 0;
            digits = map (\<lambda>i. LittleEndian_Uint64 (drop (i * 8) b)) [0..<4] @ [0]
        in map_option Inr (nonAdjacentForm_loop w digits 0 0 naf))"

definition Scalar_nonAdjacentForm :: "Scalar \<Rightarrow> nat \<Rightarrow> (string + int8 list) option" where
  "Scalar_nonAdjacentForm sc w = nonAdjacentForm_bytes (Scalar_Bytes sc) w"

text \<open>
  The bodies of the two loops of \<open>signedRadix16\<close>: the one that splits byte \<open>i\<close> into two
  unsigned digits, and the one that recentres digit \<open>i\<close>.
\<close>

definition signedRadix16_split :: "byte list \<Rightarrow> nat \<Rightarrow> int8 list \<Rightarrow> int8 list" where
  "signedRadix16_split b i digits =
     (let digits = digits[2 * i := b ! i AND 15];
          digits = digits[2 * i + 1 := drop_bit 4 (b ! i) AND 15]
      in digits)"

definition signedRadix16_recenter :: "nat \<Rightarrow> int8 list \<Rightarrow> int8 list" where
  "signedRadix16_recenter i digits =
     (let carry = signed_drop_bit 4 (digits ! i + 8);
          digits = digits[i := digits ! i - push_bit 4 carry];
          digits = digits[i + 1 := digits ! (i + 1) + carry]
      in digits)"

definition signedRadix16_bytes :: "byte list \<Rightarrow> string + int8 list" where
  "signedRadix16_bytes b =
     (if b ! 31 > 127 then Inl ''scalar has high bit set illegally''
      else
        let digits = replicate 64 0;
            digits = fold (signedRadix16_split b) [0..<32] digits;
            digits = fold signedRadix16_recenter [0..<63] digits
        in Inr digits)"

definition Scalar_signedRadix16 :: "Scalar \<Rightarrow> string + int8 list" where
  "Scalar_signedRadix16 sc = signedRadix16_bytes (Scalar_Bytes sc)"

text \<open>The integer a digit string denotes in radix \<open>r\<close>.\<close>

fun digits_val :: "int \<Rightarrow> int8 list \<Rightarrow> int" where
  "digits_val r [] = 0"
| "digits_val r (d # ds) = sint d + r * digits_val r ds"


text \<open>The unsigned radix-16 digits of a byte string, low digit of each byte first.\<close>

definition nibbles :: "byte list \<Rightarrow> int8 list" where
  "nibbles b = concat (map (\<lambda>x. [x AND 15, drop_bit 4 x AND 15]) b)"

text \<open>
  The state of the recentring loop before its step \<open>k\<close>: the digits below \<open>k\<close> are
  recentred, digit \<open>k\<close> holds its unsigned digit and the pending carry, the digits above
  are untouched, and the value is that of the unsigned digits \<open>d0\<close>. The bound \<open>m\<close> is
  one on the top unsigned digit.
\<close>

definition recenter_inv :: "int \<Rightarrow> int8 list \<Rightarrow> nat \<Rightarrow> int8 list \<Rightarrow> bool" where
  "recenter_inv m d0 k d \<longleftrightarrow>
     length d = 64 \<and> digits_val 16 d = digits_val 16 d0
     \<and> (\<forall>j<k. - 8 \<le> sint (d ! j) \<and> sint (d ! j) \<le> 7)
     \<and> 0 \<le> sint (d ! k) \<and> sint (d ! k) \<le> (if k = 63 then m + 1 else 16)
     \<and> (\<forall>j. k < j \<and> j < 64 \<longrightarrow> d ! j = d0 ! j)"


text \<open>
  The five words \<open>digits\<close> of \<open>nonAdjacentForm\<close>, and the window of \<open>w\<close> bits it reads at
  position \<open>pos\<close>, before the carry is added.
\<close>

definition naf_digits :: "byte list \<Rightarrow> uint64 list" where
  "naf_digits b = map (\<lambda>i. LittleEndian_Uint64 (drop (i * 8) b)) [0..<4] @ [0]"

definition naf_window :: "nat \<Rightarrow> uint64 list \<Rightarrow> nat \<Rightarrow> uint64" where
  "naf_window w digits pos =
     (if pos mod 64 < 64 - w then drop_bit (pos mod 64) (digits ! (pos div 64))
      else drop_bit (pos mod 64) (digits ! (pos div 64))
             OR push_bit (64 - pos mod 64) (digits ! (1 + pos div 64)))
     AND (push_bit w 1 - 1)"

text \<open>
  The state of the loop of \<open>nonAdjacentForm\<close> at position \<open>pos\<close>, for the scalar value
  \<open>V\<close>: the digits written so far denote the low \<open>pos\<close> bits of \<open>V\<close> less the pending
  carry, nothing is written at or above \<open>pos\<close>, and every digit written is admissible.
\<close>

definition naf_inv :: "int \<Rightarrow> nat \<Rightarrow> nat \<Rightarrow> uint64 \<Rightarrow> int8 list \<Rightarrow> bool" where
  "naf_inv V w pos carry naf \<longleftrightarrow>
     length naf = 256 \<and> (carry = 0 \<or> carry = 1) \<and> (carry = 1 \<longrightarrow> pos < 256)
     \<and> digits_val 2 naf = take_bit pos V - uint carry * 2 ^ pos
     \<and> (\<forall>j. pos \<le> j \<and> j < 256 \<longrightarrow> naf ! j = 0)
     \<and> (\<forall>j<256. sint (naf ! j) \<noteq> 0 \<longrightarrow> odd (sint (naf ! j)) \<and> \<bar>sint (naf ! j)\<bar> < 2 ^ (w - 1))"

text \<open>A digit of a width-\<open>w\<close> non-adjacent form: zero, or odd and below \<open>2 ^ (w - 1)\<close> in absolute value.\<close>

definition naf_digit_ok :: "nat \<Rightarrow> int8 \<Rightarrow> bool" where
  "naf_digit_ok w d \<longleftrightarrow> sint d = 0 \<or> (odd (sint d) \<and> \<bar>sint d\<bar> < 2 ^ (w - 1))"


section \<open>Group elements of the curve\<close>

text \<open>
  The coordinates are elements of the prime field of \<open>2 ^ 255 - 19\<close> elements, whose type
  \<open>radix51.FieldElement\<close> belongs to another package. The curve code uses it only through
  its field operations, so the field is a type parameter \<open>'a :: field\<close>: \<open>Add\<close>, \<open>Sub\<close>,
  \<open>Mul\<close>, \<open>Neg\<close> and \<open>Invert\<close> are \<open>+\<close>, \<open>-\<close>, \<open>*\<close>, unary minus and \<open>inverse\<close>,
  \<open>Square\<close> multiplies its operand by itself, and \<open>Equal\<close> returns the integer 1 or 0.
  The source gives the constant \<open>D\<close> by its five 51-bit limbs.
\<close>

definition fe_Square :: "'a::field \<Rightarrow> 'a" where
  "fe_Square x = x * x"

definition fe_Equal :: "'a::field \<Rightarrow> 'a \<Rightarrow> int" where
  "fe_Equal a b = (if a = b then 1 else 0)"

definition D :: "'a::field" where
  "D = of_int (929955233495203 + 466365720129213 * 2 ^ 51 + 1662059464998953 * 2 ^ 102
               + 2033849074728123 * 2 ^ 153 + 1442794654840575 * 2 ^ 204)"

definition twoD :: "'a::field" where
  "twoD = D + D"

subsection \<open>Point types\<close>

record 'a ProjP1xP1 =
  P1xP1_X :: 'a
  P1xP1_Y :: 'a
  P1xP1_Z :: 'a
  P1xP1_T :: 'a

record 'a ProjP2 =
  P2_X :: 'a
  P2_Y :: 'a
  P2_Z :: 'a

record 'a ProjP3 =
  P3_X :: 'a
  P3_Y :: 'a
  P3_Z :: 'a
  P3_T :: 'a

record 'a ProjCached =
  YplusX :: 'a
  YminusX :: 'a
  Cached_Z :: 'a
  T2d :: 'a

record 'a ExtendedGroupElement =
  Ext_X :: 'a
  Ext_Y :: 'a
  Ext_Z :: 'a
  Ext_T :: 'a

record 'a ProjectiveGroupElement =
  Proj_X :: 'a
  Proj_Y :: 'a
  Proj_Z :: 'a

text \<open>
  Every method below computes its temporaries from its operands before it writes a
  coordinate of the receiver (or its operand has another type than the receiver), so
  the receiver's new value is a function of the operands' values, also when they alias.
\<close>

subsection \<open>Conversions\<close>

definition ProjP2_FromP3 :: "'a::field ProjP3 \<Rightarrow> 'a ProjP2" where
  "ProjP2_FromP3 p = \<lparr>P2_X = P3_X p, P2_Y = P3_Y p, P2_Z = P3_Z p\<rparr>"

definition ProjP3_FromP1xP1 :: "'a::field ProjP1xP1 \<Rightarrow> 'a ProjP3" where
  "ProjP3_FromP1xP1 p =
     \<lparr>P3_X = P1xP1_X p * P1xP1_T p,
      P3_Y = P1xP1_Y p * P1xP1_Z p,
      P3_Z = P1xP1_Z p * P1xP1_T p,
      P3_T = P1xP1_X p * P1xP1_Y p\<rparr>"

definition ProjCached_FromP3 :: "'a::field ProjP3 \<Rightarrow> 'a ProjCached" where
  "ProjCached_FromP3 p =
     \<lparr>YplusX = P3_Y p + P3_X p,
      YminusX = P3_Y p - P3_X p,
      Cached_Z = P3_Z p,
      T2d = P3_T p * twoD\<rparr>"

subsection \<open>Addition and doubling into completed coordinates\<close>

definition ProjP1xP1_Add :: "'a::field ProjP3 \<Rightarrow> 'a ProjCached \<Rightarrow> 'a ProjP1xP1" where
  "ProjP1xP1_Add p q =
     (let YplusX' = P3_Y p + P3_X p;
          YminusX' = P3_Y p - P3_X p;
          PP = YplusX' * YplusX q;
          MM = YminusX' * YminusX q;
          TT2d = P3_T p * T2d q;
          ZZ2 = P3_Z p * Cached_Z q;
          ZZ2 = ZZ2 + ZZ2
      in \<lparr>P1xP1_X = PP - MM, P1xP1_Y = PP + MM, P1xP1_Z = ZZ2 + TT2d, P1xP1_T = ZZ2 - TT2d\<rparr>)"

definition ProjP3_Add :: "'a::field ProjP3 \<Rightarrow> 'a ProjP3 \<Rightarrow> 'a ProjP3" where
  "ProjP3_Add p q =
     (let qCached = ProjCached_FromP3 q;
          result = ProjP1xP1_Add p qCached
      in ProjP3_FromP1xP1 result)"

definition ProjP1xP1_Double :: "'a::field ProjP2 \<Rightarrow> 'a ProjP1xP1" where
  "ProjP1xP1_Double p =
     (let XX = fe_Square (P2_X p);
          YY = fe_Square (P2_Y p);
          ZZ2 = fe_Square (P2_Z p);
          ZZ2 = ZZ2 + ZZ2;
          XplusYsq = P2_X p + P2_Y p;
          XplusYsq = fe_Square XplusYsq;
          vY = YY + XX;
          vZ = YY - XX;
          vX = XplusYsq - vY;
          vT = ZZ2 - vZ
      in \<lparr>P1xP1_X = vX, P1xP1_Y = vY, P1xP1_Z = vZ, P1xP1_T = vT\<rparr>)"

definition ProjP3_Equal :: "'a::field ProjP3 \<Rightarrow> 'a ProjP3 \<Rightarrow> int" where
  "ProjP3_Equal v u =
     (let t1 = P3_X v * P3_Z u;
          t2 = P3_X u * P3_Z v;
          t3 = P3_Y v * P3_Z u;
          t4 = P3_Y u * P3_Z v
      in fe_Equal t1 t2 AND fe_Equal t3 t4)"

subsection \<open>Extended group elements\<close>

definition ExtendedGroupElement_Set :: "'a::field ExtendedGroupElement \<Rightarrow> 'a ExtendedGroupElement" where
  "ExtendedGroupElement_Set u = u"

definition ExtendedGroupElement_Zero :: "'a::field ExtendedGroupElement" where
  "ExtendedGroupElement_Zero = \<lparr>Ext_X = 0, Ext_Y = 1, Ext_Z = 1, Ext_T = 0\<rparr>"

text \<open>
  \<open>ToAffine\<close> hands the two affine coordinates to \<open>ToBig\<close>, the field package's
  conversion to an arbitrary-precision integer, which is a parameter here.
\<close>

definition ExtendedGroupElement_ToAffine ::
    "('a::field \<Rightarrow> int) \<Rightarrow> 'a ExtendedGroupElement \<Rightarrow> int \<times> int" where
  "ExtendedGroupElement_ToAffine ToBig v =
     (let zinv = inverse (Ext_Z v);
          x = Ext_X v * zinv;
          y = Ext_Y v * zinv
      in (ToBig x, ToBig y))"

definition ExtendedGroupElement_Add ::
    "'a::field ExtendedGroupElement \<Rightarrow> 'a ExtendedGroupElement \<Rightarrow> 'a ExtendedGroupElement" where
  "ExtendedGroupElement_Add p1 p2 =
     (let tmp1 = Ext_Y p1 - Ext_X p1;
          tmp2 = Ext_Y p2 - Ext_X p2;
          A = tmp1 * tmp2;
          tmp1 = Ext_Y p1 + Ext_X p1;
          tmp2 = Ext_Y p2 + Ext_X p2;
          B = tmp1 * tmp2;
          tmp1 = Ext_T p1 * Ext_T p2;
          C = tmp1 * twoD;
          tmp1 = Ext_Z p1 * Ext_Z p2;
          D' = tmp1 + tmp1;
          E = B - A;
          F = D' - C;
          G = D' + C;
          H = B + A
      in \<lparr>Ext_X = E * F, Ext_Y = G * H, Ext_Z = F * G, Ext_T = E * H\<rparr>)"

definition ExtendedGroupElement_Equal ::
    "'a::field ExtendedGroupElement \<Rightarrow> 'a ExtendedGroupElement \<Rightarrow> int" where
  "ExtendedGroupElement_Equal v u =
     (let t1 = Ext_X v * Ext_Z u;
          t2 = Ext_X u * Ext_Z v;
          t3 = Ext_Y v * Ext_Z u;
          t4 = Ext_Y u * Ext_Z v
      in fe_Equal t1 t2 AND fe_Equal t3 t4)"

definition ExtendedGroupElement_Double ::
    "'a::field ExtendedGroupElement \<Rightarrow> 'a ExtendedGroupElement" where
  "ExtendedGroupElement_Double u =
     (let A = fe_Square (Ext_X u);
          B = fe_Square (Ext_Y u);
          C = fe_Square (Ext_Z u);
          C = C + C;
          D' = - A;
          t0 = Ext_X u + Ext_Y u;
          t0 = fe_Square t0;
          E = t0 - A;
          E = E - B;
          G = D' + B;
          F = G - C;
          H = D' - B
      in \<lparr>Ext_X = E * F, Ext_Y = G * H, Ext_Z = F * G, Ext_T = E * H\<rparr>)"

subsection \<open>Projective group elements\<close>

definition ProjectiveGroupElement_DoubleZ1 ::
    "'a::field ProjectiveGroupElement \<Rightarrow> string + 'a ProjectiveGroupElement" where
  "ProjectiveGroupElement_DoubleZ1 u =
     (if fe_Equal (Proj_Z u) 1 \<noteq> 1 then Inl ''ed25519: DoubleZ1 called with Z != 1''
      else
        let B = fe_Square (Proj_X u + Proj_Y u);
            C = fe_Square (Proj_X u);
            D' = fe_Square (Proj_Y u);
            E = - C;
            F = E + D';
            vY = (B - C) - D';
            vX = vY * (F - 2);
            vY = F * (E - D');
            vZ = fe_Square F;
            vZ = vZ - F;
            vZ = vZ - F
        in Inr \<lparr>Proj_X = vX, Proj_Y = vY, Proj_Z = vZ\<rparr>)"

subsection \<open>The curve equation\<close>

definition IsOnCurve :: "'a::field \<Rightarrow> 'a \<Rightarrow> bool" where
  "IsOnCurve x y =
     (let lh = fe_Square x;
          y2 = fe_Square y;
          rh = lh * y2;
          rh = rh * D;
          rh = rh + 1;
          lh = - lh;
          lh = lh + y2;
          lh = lh - rh
      in fe_Equal lh 0 = 1)"

text \<open>
  An extended tuple \<open>(X, Y, Z, T)\<close> stands for the affine point \<open>x = X / Z\<close>, \<open>y = Y / Z\<close>
  with \<open>x * y = T / Z\<close>. It represents a point of the curve when \<open>Z\<close> is not zero, the
  affine point passes \<open>IsOnCurve\<close> and \<open>T\<close> is consistent.
\<close>

definition ext_on_curve :: "'a::field ExtendedGroupElement \<Rightarrow> bool" where
  "ext_on_curve p \<longleftrightarrow>
     Ext_Z p \<noteq> 0
     \<and> IsOnCurve (Ext_X p * inverse (Ext_Z p)) (Ext_Y p * inverse (Ext_Z p))
     \<and> (Ext_X p * inverse (Ext_Z p)) * (Ext_Y p * inverse (Ext_Z p)) = Ext_T p * inverse (Ext_Z p)"

text \<open>The same tuple read as a \<open>ProjP3\<close>, the other four-coordinate extended type.\<close>

definition to_P3 :: "'a::field ExtendedGroupElement \<Rightarrow> 'a ProjP3" where
  "to_P3 p = \<lparr>P3_X = Ext_X p, P3_Y = Ext_Y p, P3_Z = Ext_Z p, P3_T = Ext_T p\<rparr>"


section \<open>Signed words without overflow\<close>

lemma sint_plus_in_range:
  fixes a b :: "'a::len word"
  assumes "- (2 ^ (LENGTH('a) - 1)) \<le> sint a + sint b" "sint a + sint b < 2 ^ (LENGTH('a) - 1)"
  shows "sint (a + b) = sint a + sint b"
  using assms by (simp add: sint_word_ariths signed_take_bit_int_eq_self)

lemma sint_minus_in_range:
  fixes a b :: "'a::len word"
  assumes "- (2 ^ (LENGTH('a) - 1)) \<le> sint a - sint b" "sint a - sint b < 2 ^ (LENGTH('a) - 1)"
  shows "sint (a - b) = sint a - sint b"
  using assms by (simp add: sint_word_ariths signed_take_bit_int_eq_self)

lemma sint_times_in_range:
  fixes a b :: "'a::len word"
  assumes "- (2 ^ (LENGTH('a) - 1)) \<le> sint a * sint b" "sint a * sint b < 2 ^ (LENGTH('a) - 1)"
  shows "sint (a * b) = sint a * sint b"
  using assms by (simp add: sint_word_ariths signed_take_bit_int_eq_self)

lemma sint_sdrop: "sint (signed_drop_bit n w) = sint w div 2 ^ n"
  by (simp add: sint_signed_drop_bit_eq drop_bit_eq_div)


section \<open>Properties of the scalar layer\<close>

subsection \<open>Little-endian values\<close>

lemma le_val_nonneg: "0 \<le> le_val bs"
  by (induction bs) auto

lemma le_val_bound: "le_val bs < 256 ^ length bs"
proof (induction bs)
  case Nil
  show ?case by simp
next
  case (Cons b bs)
  have "uint b < 256" using uint_bounded[of b] by simp
  with Cons show ?case by simp
qed

lemma le_val_append: "le_val (xs @ ys) = le_val xs + 256 ^ length xs * le_val ys"
  by (induction xs) (auto simp: algebra_simps)

lemma le_val_take_Suc:
  "n < length bs \<Longrightarrow> le_val (take (Suc n) bs) = le_val (take n bs) + 256 ^ n * uint (bs ! n)"
  by (simp add: take_Suc_conv_app_nth le_val_append)

lemma le_val_to_bytes_gen:
  "0 \<le> x \<Longrightarrow> x < 256 ^ n \<Longrightarrow> le_val (map (\<lambda>i. word_of_int (x div 256 ^ i)) [0..<n]) = x"
proof (induction n arbitrary: x)
  case 0
  then show ?case by simp
next
  case (Suc n)
  have b: "uint (word_of_int x :: byte) = x mod 256"
    by (simp add: uint_word_of_int take_bit_eq_mod)
  have r: "0 \<le> x div 256" "x div 256 < 256 ^ n" using Suc.prems by auto
  have "map (\<lambda>i. word_of_int (x div 256 ^ i) :: byte) [0..<Suc n]
      = word_of_int x # map (\<lambda>i. word_of_int ((x div 256) div 256 ^ i)) [0..<n]"
    unfolding map_upt_Suc by (simp add: zdiv_zmult2_eq)
  then show ?case using Suc.IH[OF r] b by simp
qed

lemma to_bytes_value: "0 \<le> x \<Longrightarrow> x < 2 ^ 256 \<Longrightarrow> le_val (fiat_sc255_to_bytes x) = x"
  unfolding fiat_sc255_to_bytes_def using le_val_to_bytes_gen[of x 32] by simp

lemma length_to_bytes: "length (fiat_sc255_to_bytes x) = 32"
  by (simp add: fiat_sc255_to_bytes_def)

subsection \<open>The Montgomery domain\<close>

lemma ell_gt: "1 < ell"
  by (simp add: ell_def)

lemma ell_lt: "ell < 2 ^ 253"
  by (simp add: ell_def)

lemma R_inv: "montR * montRinv =
    71336056475231800826343715077027849978041630819377026201054086228062141447707 * ell + 1"
  by (simp add: montR_def montRinv_def ell_def)

lemma R_inv_mod: "(montR * montRinv) mod ell = 1"
  unfolding R_inv using ell_gt by simp

lemma from_mont_range:
  "0 \<le> fiat_sc255_from_montgomery a" "fiat_sc255_from_montgomery a < ell"
  using ell_gt by (simp_all add: fiat_sc255_from_montgomery_def)

lemma scalar_value_eq: "scalar_value sc = (limbs sc * montRinv) mod ell"
proof -
  have "fiat_sc255_from_montgomery (limbs sc) < 2 ^ 256"
    using from_mont_range(2)[of "limbs sc"] ell_lt by simp
  then show ?thesis
    using from_mont_range(1)[of "limbs sc"]
    by (simp add: scalar_value_def Scalar_Bytes_def to_bytes_value fiat_sc255_from_montgomery_def)
qed

lemma scalar_value_range: "0 \<le> scalar_value sc" "scalar_value sc < ell"
  using ell_gt by (simp_all add: scalar_value_eq)

lemma scalar_value_to_montgomery:
  "scalar_value \<lparr>limbs = fiat_sc255_to_montgomery x\<rparr> = x mod ell"
proof -
  have "(x * montR mod ell) * montRinv mod ell = (x * montR * montRinv) mod ell"
    by (simp only: mod_mult_left_eq)
  also have "\<dots> = (x * (montR * montRinv)) mod ell"
    by (simp only: mult.assoc)
  also have "\<dots> = (x * ((montR * montRinv) mod ell)) mod ell"
    by (simp only: mod_mult_right_eq)
  finally show ?thesis
    by (simp add: scalar_value_eq fiat_sc255_to_montgomery_def R_inv_mod)
qed

lemma scOne_value: "scalar_value scOne = 1"
proof -
  have "limbs scOne * montRinv =
      4458503529701987551646482192314240623371233694051727352189120453168926472447 * ell + 1"
    by (simp add: scOne_def montRinv_def ell_def)
  then show ?thesis
    unfolding scalar_value_eq using ell_gt by simp
qed

lemma NewScalar_value: "scalar_value NewScalar = 0"
  unfolding scalar_value_eq by (simp add: NewScalar_def)

lemma mont_mul_add:
  "((a * b * montRinv mod ell + z) mod ell) * montRinv mod ell
   = ((a * montRinv mod ell) * (b * montRinv mod ell) + (z * montRinv mod ell)) mod ell"
proof -
  have "((a * b * montRinv mod ell + z) mod ell) * montRinv mod ell
      = ((a * b * montRinv + z) * montRinv) mod ell"
    by (simp add: mod_mult_left_eq mod_add_left_eq)
  also have "\<dots> = ((a * montRinv) * (b * montRinv) + z * montRinv) mod ell"
    by (simp add: algebra_simps)
  also have "\<dots> = ((a * montRinv * (b * montRinv)) mod ell + (z * montRinv) mod ell) mod ell"
    by (simp only: mod_add_eq)
  also have "(a * montRinv * (b * montRinv)) mod ell
      = ((a * montRinv mod ell) * (b * montRinv mod ell)) mod ell"
    by (simp only: mod_mult_eq)
  also have "(((a * montRinv mod ell) * (b * montRinv mod ell)) mod ell + (z * montRinv) mod ell) mod ell
      = ((a * montRinv mod ell) * (b * montRinv mod ell) + (z * montRinv mod ell)) mod ell"
    by (simp only: mod_add_left_eq)
  finally show ?thesis .
qed

subsection \<open>MultiplyAdd and aliasing\<close>

text \<open>
  When \<open>z\<close> is an object other than the receiver, \<open>Scalar_MultiplyAdd\<close> leaves \<open>x * y + z\<close>
  in the receiver, whatever else aliases.
\<close>

lemma MultiplyAdd_distinct_z:
  assumes "z \<noteq> s"
  shows "scalar_value (Scalar_MultiplyAdd h s x y z s)
       = (scalar_value (h x) * scalar_value (h y) + scalar_value (h z)) mod ell"
  using assms
  by (simp add: Scalar_MultiplyAdd_def Scalar_Add_def Scalar_Multiply_def scalar_value_eq
      fiat_sc255_mul_def fiat_sc255_add_def mont_mul_add)

text \<open>
  When \<open>z\<close> is the receiver, \<open>Scalar_Multiply\<close> has overwritten it before \<open>Scalar_Add\<close> reads it,
  and the receiver ends as \<open>x * y + x * y\<close>.
\<close>

lemma MultiplyAdd_aliased_z:
  "scalar_value (Scalar_MultiplyAdd h s x y s s)
     = (scalar_value (h x) * scalar_value (h y) + scalar_value (h x) * scalar_value (h y)) mod ell"
proof -
  have "scalar_value (Scalar_MultiplyAdd h s x y s s)
      = ((limbs (h x) * limbs (h y) * montRinv mod ell
          + limbs (h x) * limbs (h y) * montRinv mod ell) mod ell) * montRinv mod ell"
    by (simp add: Scalar_MultiplyAdd_def Scalar_Add_def Scalar_Multiply_def scalar_value_eq
        fiat_sc255_mul_def fiat_sc255_add_def)
  also have "\<dots> = ((limbs (h x) * limbs (h y) * montRinv mod ell
          + limbs (h x) * limbs (h y) * montRinv) mod ell) * montRinv mod ell"
    by (simp only: mod_add_right_eq)
  also have "\<dots> = ((limbs (h x) * montRinv mod ell) * (limbs (h y) * montRinv mod ell)
          + (limbs (h x) * limbs (h y) * montRinv * montRinv mod ell)) mod ell"
    by (simp only: mont_mul_add)
  also have "limbs (h x) * limbs (h y) * montRinv * montRinv
      = (limbs (h x) * montRinv) * (limbs (h y) * montRinv)"
    by simp
  also have "((limbs (h x) * montRinv) * (limbs (h y) * montRinv)) mod ell
      = ((limbs (h x) * montRinv mod ell) * (limbs (h y) * montRinv mod ell)) mod ell"
    by (simp only: mod_mult_eq)
  finally show ?thesis
    by (simp add: scalar_value_eq mod_add_right_eq)
qed

text \<open>
  C3. \<open>MultiplyAdd(x, y, z)\<close> is claimed to set the receiver to \<open>x * y + z mod l\<close> in
  every aliasing configuration, in particular when \<open>z\<close> is the receiver. Evaluated on
  the store where address 0 holds the scalar one and every other address holds zero,
  with receiver and \<open>z\<close> both at address 0 and \<open>x\<close>, \<open>y\<close> at addresses 1 and 2:
  \<open>x * y + z\<close> is \<open>1\<close>, and the receiver ends as \<open>0\<close>.
\<close>

theorem MultiplyAdd_alias_evaluation:
  "(scalar_value (((\<lambda>_::addr. NewScalar)(0 := scOne)) 1)
      * scalar_value (((\<lambda>_::addr. NewScalar)(0 := scOne)) 2)
      + scalar_value (((\<lambda>_::addr. NewScalar)(0 := scOne)) 0)) mod ell = 1
   \<and> scalar_value (Scalar_MultiplyAdd ((\<lambda>_::addr. NewScalar)(0 := scOne)) 0 1 2 0 0) = 0"
  using ell_gt
  by (simp add: MultiplyAdd_aliased_z NewScalar_value scOne_value)

subsection \<open>Canonical decoding\<close>

lemma length_scMinusOneBytes: "length scMinusOneBytes = 32"
  by (simp add: scMinusOneBytes_def)

lemma le_val_scMinusOneBytes: "le_val scMinusOneBytes = ell - 1"
  by (simp add: scMinusOneBytes_def ell_def)

text \<open>
  The scan from the most significant byte decides the order of the two integers: after
  \<open>n\<close> bytes have tied from the top, the lower \<open>n\<close> bytes decide.
\<close>

lemma isReduced_loop_iff:
  "n \<le> 32 \<Longrightarrow> length bs = 32 \<Longrightarrow>
   isReduced_loop n bs \<longleftrightarrow> le_val (take n bs) \<le> le_val (take n scMinusOneBytes)"
proof (induction n)
  case 0
  then show ?case by simp
next
  case (Suc n)
  let ?m = scMinusOneBytes
  have n: "n < length bs" "n < length ?m"
    using Suc.prems by (simp_all add: length_scMinusOneBytes)
  have vb: "le_val (take (Suc n) bs) = le_val (take n bs) + 256 ^ n * uint (bs ! n)"
    and vm: "le_val (take (Suc n) ?m) = le_val (take n ?m) + 256 ^ n * uint (?m ! n)"
    using n by (simp_all add: le_val_take_Suc)
  have bb: "0 \<le> le_val (take n bs)" "le_val (take n bs) < 256 ^ n"
    using le_val_nonneg[of "take n bs"] le_val_bound[of "take n bs"] n by simp_all
  have bm: "0 \<le> le_val (take n ?m)" "le_val (take n ?m) < 256 ^ n"
    using le_val_nonneg[of "take n ?m"] le_val_bound[of "take n ?m"] n by simp_all
  consider (gt) "bs ! n > ?m ! n" | (lt) "bs ! n < ?m ! n" | (eq) "bs ! n = ?m ! n"
    by fastforce
  then show ?case
  proof cases
    case gt
    then have "uint (?m ! n) + 1 \<le> uint (bs ! n)" by (simp add: word_less_def)
    then have "256 ^ n * (uint (?m ! n) + 1) \<le> (256 ^ n :: int) * uint (bs ! n)"
      by (intro mult_left_mono) simp_all
    then have "le_val (take (Suc n) ?m) < le_val (take (Suc n) bs)"
      using bb bm unfolding vb vm by (simp add: algebra_simps)
    with gt show ?thesis by simp
  next
    case lt
    then have "uint (bs ! n) + 1 \<le> uint (?m ! n)" by (simp add: word_less_def)
    then have "256 ^ n * (uint (bs ! n) + 1) \<le> (256 ^ n :: int) * uint (?m ! n)"
      by (intro mult_left_mono) simp_all
    then have "le_val (take (Suc n) bs) < le_val (take (Suc n) ?m)"
      using bb bm unfolding vb vm by (simp add: algebra_simps)
    moreover have "\<not> bs ! n > ?m ! n" using lt by simp
    ultimately show ?thesis using lt by simp
  next
    case eq
    then show ?thesis using Suc vb vm by simp
  qed
qed

lemma isReduced_iff: "isReduced bs \<longleftrightarrow> length bs = 32 \<and> le_val bs < ell"
proof (cases "length bs = 32")
  case True
  then show ?thesis
    using isReduced_loop_iff[of 32 bs] le_val_scMinusOneBytes
    by (simp add: isReduced_def length_scMinusOneBytes)
next
  case False
  then show ?thesis by (simp add: isReduced_def)
qed

lemma le_val_ell_bytes: "le_val ell_bytes = ell"
  by (simp add: ell_bytes_def ell_def)

lemma le_val_ell_plus_one_bytes: "le_val ell_plus_one_bytes = ell + 1"
  by (simp add: ell_plus_one_bytes_def ell_def)

lemma le_val_all_ones_bytes: "le_val all_ones_bytes = 2 ^ 256 - 1"
  by (simp add: all_ones_bytes_def)

text \<open>
  C6. \<open>SetCanonicalBytes(x)\<close> succeeds exactly when \<open>x\<close> has 32 bytes and denotes an
  integer below \<open>l\<close>, and then the receiver holds that integer; otherwise it returns an
  error and the store, hence the receiver, is as before; the wrong length gives the
  length error and a value of \<open>l\<close> or more gives the encoding error. The 32-byte
  encodings of \<open>l\<close>, \<open>l + 1\<close> and \<open>2 ^ 256 - 1\<close> are rejected with the encoding error.
\<close>

theorem SetCanonicalBytes_spec:
  "Scalar_SetCanonicalBytes h s x =
     (if length x = 32 \<and> le_val x < ell
      then (h(s := \<lparr>limbs = fiat_sc255_to_montgomery (le_val x)\<rparr>), Inr s)
      else (h, Inl (if length x \<noteq> 32 then ''invalid scalar length''
                    else ''invalid scalar encoding'')))
   \<and> scalar_value \<lparr>limbs = fiat_sc255_to_montgomery (le_val x)\<rparr> = le_val x mod ell
   \<and> le_val ell_bytes = ell
   \<and> Scalar_SetCanonicalBytes h s ell_bytes = (h, Inl ''invalid scalar encoding'')
   \<and> le_val ell_plus_one_bytes = ell + 1
   \<and> Scalar_SetCanonicalBytes h s ell_plus_one_bytes = (h, Inl ''invalid scalar encoding'')
   \<and> le_val all_ones_bytes = 2 ^ 256 - 1
   \<and> Scalar_SetCanonicalBytes h s all_ones_bytes = (h, Inl ''invalid scalar encoding'')"
proof -
  have gen: "Scalar_SetCanonicalBytes h s y =
     (if length y = 32 \<and> le_val y < ell
      then (h(s := \<lparr>limbs = fiat_sc255_to_montgomery (le_val y)\<rparr>), Inr s)
      else (h, Inl (if length y \<noteq> 32 then ''invalid scalar length''
                    else ''invalid scalar encoding'')))" for y
    by (simp add: Scalar_SetCanonicalBytes_def isReduced_iff fiat_sc255_from_bytes_def Let_def copy_bytes_def)
  have l1: "length ell_bytes = 32" by (simp add: ell_bytes_def)
  have l2: "length ell_plus_one_bytes = 32" by (simp add: ell_plus_one_bytes_def)
  have l3: "length all_ones_bytes = 32" by (simp add: all_ones_bytes_def)
  have big: "\<not> (2 ^ 256 - 1 < ell)" using ell_lt by simp
  show ?thesis
    using gen[of x] gen[of ell_bytes] gen[of ell_plus_one_bytes] gen[of all_ones_bytes]
      l1 l2 l3 big
    by (simp add: scalar_value_to_montgomery le_val_ell_bytes le_val_ell_plus_one_bytes
        le_val_all_ones_bytes)
qed

section \<open>Properties of the group elements\<close>

subsection \<open>The curve equation in projective form\<close>

lemma IsOnCurve_eq: "IsOnCurve x y \<longleftrightarrow> - (x * x) + y * y - (x * x * (y * y) * D + 1) = 0"
  by (simp add: IsOnCurve_def fe_Square_def fe_Equal_def Let_def)

lemma clear_denominators:
  fixes z :: "'a::field"
  assumes zi: "z * i = 1"
    and c: "- (a * a) + b * b - (a * a * (b * b) * d + 1) = 0"
    and t: "a * b = c"
  shows "d * ((z * c) * (z * c)) = (z * b) * (z * b) - (z * a) * (z * a) - z * z"
proof -
  have "a * a * (b * b) = (a * b) * (a * b)" by (simp only: mult_ac)
  then have c': "- (a * a) + b * b - (c * c * d + 1) = 0" using c t by simp
  have "(z * b) * (z * b) - (z * a) * (z * a) - z * z - d * ((z * c) * (z * c))
      = z * z * (- (a * a) + b * b - (c * c * d + 1))"
    by (simp add: algebra_simps)
  then show ?thesis using c' by simp
qed

lemma ext_on_curve_eqs:
  assumes "ext_on_curve p"
  shows "Ext_Z p \<noteq> 0" "Ext_X p * Ext_Y p = Ext_Z p * Ext_T p"
    "D * (Ext_T p * Ext_T p) = Ext_Y p * Ext_Y p - Ext_X p * Ext_X p - Ext_Z p * Ext_Z p"
proof -
  let ?X = "Ext_X p" and ?Y = "Ext_Y p" and ?Z = "Ext_Z p" and ?T = "Ext_T p"
  let ?i = "inverse ?Z"
  from assms have z: "?Z \<noteq> 0"
    and c: "IsOnCurve (?X * ?i) (?Y * ?i)"
    and t: "(?X * ?i) * (?Y * ?i) = ?T * ?i"
    unfolding ext_on_curve_def by blast+
  have zi: "?Z * ?i = 1" using z by simp
  have zmul: "?Z * (v * ?i) = v" for v
  proof -
    have "?Z * (v * ?i) = v * (?Z * ?i)" by (simp only: mult_ac)
    then show ?thesis using zi by simp
  qed
  show "?Z \<noteq> 0" by (rule z)
  have "?Z * (?Z * ((?X * ?i) * (?Y * ?i))) = (?Z * (?X * ?i)) * (?Z * (?Y * ?i))" by (simp only: mult_ac)
  then have "?Z * (?Z * (?T * ?i)) = ?X * ?Y" unfolding t zmul by simp
  then show "?X * ?Y = ?Z * ?T" unfolding zmul by simp
  from c have c': "- ((?X * ?i) * (?X * ?i)) + (?Y * ?i) * (?Y * ?i)
       - ((?X * ?i) * (?X * ?i) * ((?Y * ?i) * (?Y * ?i)) * D + 1) = 0"
    unfolding IsOnCurve_eq .
  show "D * (?T * ?T) = ?Y * ?Y - ?X * ?X - ?Z * ?Z"
    using clear_denominators[OF zi c' t] unfolding zmul .
qed

lemma twoD_TT:
  assumes "ext_on_curve p"
  shows "Ext_T p * Ext_T p * twoD = 2 * (Ext_Y p * Ext_Y p - Ext_X p * Ext_X p - Ext_Z p * Ext_Z p)"
proof -
  have "Ext_T p * Ext_T p * twoD = 2 * (D * (Ext_T p * Ext_T p))"
    by (simp add: twoD_def algebra_simps)
  then show ?thesis by (simp only: ext_on_curve_eqs(3)[OF assms])
qed


subsection \<open>Equality by cross-multiplication\<close>

lemma fe_Equal_and: "fe_Equal a b AND fe_Equal c d = (if a = b \<and> c = d then 1 else 0)"
  by (simp add: fe_Equal_def)

lemma ExtendedGroupElement_Equal_eq:
  "ExtendedGroupElement_Equal v u =
     (if Ext_X v * Ext_Z u = Ext_X u * Ext_Z v \<and> Ext_Y v * Ext_Z u = Ext_Y u * Ext_Z v then 1 else 0)"
  by (simp add: ExtendedGroupElement_Equal_def Let_def fe_Equal_and)

lemma ProjP3_Equal_eq:
  "ProjP3_Equal v u =
     (if P3_X v * P3_Z u = P3_X u * P3_Z v \<and> P3_Y v * P3_Z u = P3_Y u * P3_Z v then 1 else 0)"
  by (simp add: ProjP3_Equal_def Let_def fe_Equal_and)

lemma cross_iff_quot:
  fixes x1 :: "'a::field"
  assumes "z1 \<noteq> 0" "z2 \<noteq> 0"
  shows "x1 * z2 = x2 * z1 \<longleftrightarrow> x1 * inverse z1 = x2 * inverse z2"
  using assms by (simp add: field_simps)

lemma cross_iff_scale:
  fixes x1 :: "'a::field"
  assumes "z1 \<noteq> 0" "z2 \<noteq> 0"
  shows "(x1 * z2 = x2 * z1 \<and> y1 * z2 = y2 * z1)
     \<longleftrightarrow> (\<exists>k. k \<noteq> 0 \<and> x2 = k * x1 \<and> y2 = k * y1 \<and> z2 = k * z1)"
proof
  assume c: "x1 * z2 = x2 * z1 \<and> y1 * z2 = y2 * z1"
  let ?k = "z2 * inverse z1"
  have "?k \<noteq> 0" using assms by simp
  moreover have "x2 = ?k * x1" using c assms by (simp add: field_simps)
  moreover have "y2 = ?k * y1" using c assms by (simp add: field_simps)
  moreover have "z2 = ?k * z1" using assms by (simp add: field_simps)
  ultimately show "\<exists>k. k \<noteq> 0 \<and> x2 = k * x1 \<and> y2 = k * y1 \<and> z2 = k * z1" by blast
next
  assume "\<exists>k. k \<noteq> 0 \<and> x2 = k * x1 \<and> y2 = k * y1 \<and> z2 = k * z1"
  then obtain k where "x2 = k * x1" "y2 = k * y1" "z2 = k * z1" by blast
  then show "x1 * z2 = x2 * z1 \<and> y1 * z2 = y2 * z1" by (simp add: mult_ac)
qed


subsection \<open>Doubling against adding a point to itself\<close>

text \<open>
  On the curve \<open>d * T\<^sup>2 = Y\<^sup>2 - X\<^sup>2 - Z\<^sup>2\<close>, and then every coordinate that \<open>Add\<close>
  computes for \<open>p + p\<close> is \<open>-4\<close> times the coordinate that \<open>Double\<close> computes; in
  completed coordinates the factor is \<open>2\<close>.
\<close>

lemma dbl_add:
  assumes "ext_on_curve p"
  shows "Ext_X (ExtendedGroupElement_Add p p) = - 4 * Ext_X (ExtendedGroupElement_Double p)"
   "Ext_Y (ExtendedGroupElement_Add p p) = - 4 * Ext_Y (ExtendedGroupElement_Double p)"
   "Ext_Z (ExtendedGroupElement_Add p p) = - 4 * Ext_Z (ExtendedGroupElement_Double p)"
   "Ext_T (ExtendedGroupElement_Add p p) = - 4 * Ext_T (ExtendedGroupElement_Double p)"
proof -
  note e = twoD_TT[OF assms]
  show "Ext_X (ExtendedGroupElement_Add p p) = - 4 * Ext_X (ExtendedGroupElement_Double p)"
    by (simp add: ExtendedGroupElement_Add_def ExtendedGroupElement_Double_def Let_def fe_Square_def e)
       (simp add: algebra_simps)
  show "Ext_Y (ExtendedGroupElement_Add p p) = - 4 * Ext_Y (ExtendedGroupElement_Double p)"
    by (simp add: ExtendedGroupElement_Add_def ExtendedGroupElement_Double_def Let_def fe_Square_def e)
       (simp add: algebra_simps)
  show "Ext_Z (ExtendedGroupElement_Add p p) = - 4 * Ext_Z (ExtendedGroupElement_Double p)"
    by (simp add: ExtendedGroupElement_Add_def ExtendedGroupElement_Double_def Let_def fe_Square_def e)
       (simp add: algebra_simps)
  show "Ext_T (ExtendedGroupElement_Add p p) = - 4 * Ext_T (ExtendedGroupElement_Double p)"
    by (simp add: ExtendedGroupElement_Add_def ExtendedGroupElement_Double_def Let_def fe_Square_def e)
       (simp add: algebra_simps)
qed


lemma p1xp1_dbl_add:
  assumes "ext_on_curve p"
  shows "ProjP1xP1_Add (to_P3 p) (ProjCached_FromP3 (to_P3 p))
       = \<lparr>P1xP1_X = 2 * P1xP1_X (ProjP1xP1_Double (ProjP2_FromP3 (to_P3 p))),
          P1xP1_Y = 2 * P1xP1_Y (ProjP1xP1_Double (ProjP2_FromP3 (to_P3 p))),
          P1xP1_Z = 2 * P1xP1_Z (ProjP1xP1_Double (ProjP2_FromP3 (to_P3 p))),
          P1xP1_T = 2 * P1xP1_T (ProjP1xP1_Double (ProjP2_FromP3 (to_P3 p)))\<rparr>"
proof -
  have e: "Ext_T p * (Ext_T p * twoD)
      = 2 * (Ext_Y p * Ext_Y p - Ext_X p * Ext_X p - Ext_Z p * Ext_Z p)"
    using twoD_TT[OF assms] by (simp only: mult.assoc)
  show ?thesis
    by (simp add: ProjP1xP1_Add_def ProjP1xP1_Double_def ProjCached_FromP3_def ProjP2_FromP3_def
        to_P3_def Let_def fe_Square_def e)
       (simp add: algebra_simps)
qed

lemma scaled_quotient:
  fixes a :: "'a::field"
  assumes "k \<noteq> 0"
  shows "(k * a) * inverse (k * b) = a * inverse b"
  using assms by (simp add: field_simps)


text \<open>
  C7. For an extended point \<open>p\<close> on the curve with nonzero \<open>Z\<close>, in a field where
  \<open>2\<close> is not zero: \<open>Double(p)\<close> and \<open>Add(p, p)\<close> are \<open>Equal\<close> and have the same affine
  coordinates; the completed-coordinate \<open>Double\<close> of the projective form of \<open>p\<close> and
  the cached-operand \<open>Add\<close> of \<open>p\<close> with itself are \<open>Equal\<close> once converted to \<open>ProjP3\<close>,
  and denote the same affine coordinates \<open>X / Z\<close> and \<open>Y / T\<close>.
\<close>

theorem Double_agrees_with_Add:
  fixes p :: "'a::field ExtendedGroupElement"
  assumes "ext_on_curve p" and "(2::'a) \<noteq> 0"
  shows "ExtendedGroupElement_Equal (ExtendedGroupElement_Double p) (ExtendedGroupElement_Add p p) = 1
    \<and> ExtendedGroupElement_ToAffine ToBig (ExtendedGroupElement_Double p)
        = ExtendedGroupElement_ToAffine ToBig (ExtendedGroupElement_Add p p)
    \<and> ProjP3_Equal (ProjP3_FromP1xP1 (ProjP1xP1_Double (ProjP2_FromP3 (to_P3 p))))
         (ProjP3_FromP1xP1 (ProjP1xP1_Add (to_P3 p) (ProjCached_FromP3 (to_P3 p)))) = 1
    \<and> P1xP1_X (ProjP1xP1_Double (ProjP2_FromP3 (to_P3 p)))
          * inverse (P1xP1_Z (ProjP1xP1_Double (ProjP2_FromP3 (to_P3 p))))
        = P1xP1_X (ProjP1xP1_Add (to_P3 p) (ProjCached_FromP3 (to_P3 p)))
          * inverse (P1xP1_Z (ProjP1xP1_Add (to_P3 p) (ProjCached_FromP3 (to_P3 p))))
    \<and> P1xP1_Y (ProjP1xP1_Double (ProjP2_FromP3 (to_P3 p)))
          * inverse (P1xP1_T (ProjP1xP1_Double (ProjP2_FromP3 (to_P3 p))))
        = P1xP1_Y (ProjP1xP1_Add (to_P3 p) (ProjCached_FromP3 (to_P3 p)))
          * inverse (P1xP1_T (ProjP1xP1_Add (to_P3 p) (ProjCached_FromP3 (to_P3 p))))"
proof -
  have four: "(- 4 :: 'a) \<noteq> 0"
  proof -
    have f: "(2::'a) * 2 = 4" by simp
    have "(2::'a) * 2 \<noteq> 0" using assms(2) mult_eq_0_iff[of "2::'a" 2] by blast
    then have "(4::'a) \<noteq> 0" unfolding f .
    then show ?thesis by simp
  qed
  note da = dbl_add[OF assms(1)]
  have 1: "ExtendedGroupElement_Equal (ExtendedGroupElement_Double p) (ExtendedGroupElement_Add p p) = 1"
    unfolding ExtendedGroupElement_Equal_eq da by (simp add: mult_ac)
  have 2: "ExtendedGroupElement_ToAffine ToBig (ExtendedGroupElement_Double p)
        = ExtendedGroupElement_ToAffine ToBig (ExtendedGroupElement_Add p p)"
    unfolding ExtendedGroupElement_ToAffine_def Let_def da scaled_quotient[OF four] ..
  note pa = p1xp1_dbl_add[OF assms(1)]
  have 3: "ProjP3_Equal (ProjP3_FromP1xP1 (ProjP1xP1_Double (ProjP2_FromP3 (to_P3 p))))
         (ProjP3_FromP1xP1 (ProjP1xP1_Add (to_P3 p) (ProjCached_FromP3 (to_P3 p)))) = 1"
    unfolding ProjP3_Equal_eq pa by (simp add: ProjP3_FromP1xP1_def mult_ac)
  have 4: "P1xP1_X (ProjP1xP1_Double (ProjP2_FromP3 (to_P3 p)))
          * inverse (P1xP1_Z (ProjP1xP1_Double (ProjP2_FromP3 (to_P3 p))))
        = P1xP1_X (ProjP1xP1_Add (to_P3 p) (ProjCached_FromP3 (to_P3 p)))
          * inverse (P1xP1_Z (ProjP1xP1_Add (to_P3 p) (ProjCached_FromP3 (to_P3 p))))"
    unfolding pa using scaled_quotient[OF assms(2)] by simp
  have 5: "P1xP1_Y (ProjP1xP1_Double (ProjP2_FromP3 (to_P3 p)))
          * inverse (P1xP1_T (ProjP1xP1_Double (ProjP2_FromP3 (to_P3 p))))
        = P1xP1_Y (ProjP1xP1_Add (to_P3 p) (ProjCached_FromP3 (to_P3 p)))
          * inverse (P1xP1_T (ProjP1xP1_Add (to_P3 p) (ProjCached_FromP3 (to_P3 p))))"
    unfolding pa using scaled_quotient[OF assms(2)] by simp
  from 1 2 3 4 5 show ?thesis by blast
qed


text \<open>The point \<open>(0, -1)\<close> over the rationals, written with \<open>Z = 3\<close>.\<close>

lemma ext_on_curve_example:
  "ext_on_curve \<lparr>Ext_X = 0, Ext_Y = - 3, Ext_Z = 3, Ext_T = (0::rat)\<rparr>"
  by (simp add: ext_on_curve_def IsOnCurve_eq)

theorem Double_agrees_with_Add_witness:
  "ext_on_curve \<lparr>Ext_X = 0, Ext_Y = - 3, Ext_Z = 3, Ext_T = (0::rat)\<rparr> \<and> (2::rat) \<noteq> 0
   \<and> ExtendedGroupElement_Equal
        (ExtendedGroupElement_Double \<lparr>Ext_X = 0, Ext_Y = - 3, Ext_Z = 3, Ext_T = (0::rat)\<rparr>)
        (ExtendedGroupElement_Add \<lparr>Ext_X = 0, Ext_Y = - 3, Ext_Z = 3, Ext_T = (0::rat)\<rparr>
           \<lparr>Ext_X = 0, Ext_Y = - 3, Ext_Z = 3, Ext_T = (0::rat)\<rparr>) = 1"
proof -
  have h2: "(2::rat) \<noteq> 0" by simp
  from Double_agrees_with_Add[OF ext_on_curve_example h2, of floor]
  have "ExtendedGroupElement_Equal
        (ExtendedGroupElement_Double \<lparr>Ext_X = 0, Ext_Y = - 3, Ext_Z = 3, Ext_T = (0::rat)\<rparr>)
        (ExtendedGroupElement_Add \<lparr>Ext_X = 0, Ext_Y = - 3, Ext_Z = 3, Ext_T = (0::rat)\<rparr>
           \<lparr>Ext_X = 0, Ext_Y = - 3, Ext_Z = 3, Ext_T = (0::rat)\<rparr>) = 1"
    by (rule conjunct1)
  with ext_on_curve_example h2 show ?thesis by blast
qed

text \<open>
  C10. \<open>Equal\<close> on two extended points (of either extended type) returns 1 or 0, and it
  returns 1 exactly when \<open>X1 * Z2 = X2 * Z1\<close> and \<open>Y1 * Z2 = Y2 * Z1\<close>; when both \<open>Z\<close> are
  nonzero this is exactly when the affine coordinates \<open>X / Z\<close>, \<open>Y / Z\<close> agree, that is
  when one tuple is the other scaled by a nonzero factor.
\<close>

theorem Equal_cross_multiplication:
  fixes v u :: "'a::field ExtendedGroupElement" and v' u' :: "'a ProjP3"
  assumes "Ext_Z v \<noteq> 0" "Ext_Z u \<noteq> 0" "P3_Z v' \<noteq> 0" "P3_Z u' \<noteq> 0"
  shows "(ExtendedGroupElement_Equal v u = 1 \<or> ExtendedGroupElement_Equal v u = 0)
    \<and> (ExtendedGroupElement_Equal v u = 1
        \<longleftrightarrow> Ext_X v * Ext_Z u = Ext_X u * Ext_Z v \<and> Ext_Y v * Ext_Z u = Ext_Y u * Ext_Z v)
    \<and> (ExtendedGroupElement_Equal v u = 1
        \<longleftrightarrow> Ext_X v * inverse (Ext_Z v) = Ext_X u * inverse (Ext_Z u)
            \<and> Ext_Y v * inverse (Ext_Z v) = Ext_Y u * inverse (Ext_Z u))
    \<and> (ExtendedGroupElement_Equal v u = 1
        \<longleftrightarrow> (\<exists>k. k \<noteq> 0 \<and> Ext_X u = k * Ext_X v \<and> Ext_Y u = k * Ext_Y v \<and> Ext_Z u = k * Ext_Z v))
    \<and> (ProjP3_Equal v' u' = 1 \<or> ProjP3_Equal v' u' = 0)
    \<and> (ProjP3_Equal v' u' = 1
        \<longleftrightarrow> P3_X v' * P3_Z u' = P3_X u' * P3_Z v' \<and> P3_Y v' * P3_Z u' = P3_Y u' * P3_Z v')
    \<and> (ProjP3_Equal v' u' = 1
        \<longleftrightarrow> P3_X v' * inverse (P3_Z v') = P3_X u' * inverse (P3_Z u')
            \<and> P3_Y v' * inverse (P3_Z v') = P3_Y u' * inverse (P3_Z u'))
    \<and> (ProjP3_Equal v' u' = 1
        \<longleftrightarrow> (\<exists>k. k \<noteq> 0 \<and> P3_X u' = k * P3_X v' \<and> P3_Y u' = k * P3_Y v' \<and> P3_Z u' = k * P3_Z v'))"
  unfolding ExtendedGroupElement_Equal_eq ProjP3_Equal_eq
    cross_iff_scale[OF assms(1,2), symmetric] cross_iff_scale[OF assms(3,4), symmetric]
    cross_iff_quot[OF assms(1,2), symmetric] cross_iff_quot[OF assms(3,4), symmetric]
  by simp

text \<open>
  Over the rationals: two different tuples of the same point are \<open>Equal\<close>, two tuples
  of different points are not.
\<close>

theorem Equal_cross_multiplication_witness:
  "Ext_Z \<lparr>Ext_X = 1, Ext_Y = 2, Ext_Z = 3, Ext_T = (5::rat)\<rparr> \<noteq> 0
   \<and> Ext_Z \<lparr>Ext_X = 2, Ext_Y = 4, Ext_Z = 6, Ext_T = (7::rat)\<rparr> \<noteq> 0
   \<and> \<lparr>Ext_X = 1, Ext_Y = 2, Ext_Z = 3, Ext_T = (5::rat)\<rparr> \<noteq> \<lparr>Ext_X = 2, Ext_Y = 4, Ext_Z = 6, Ext_T = (7::rat)\<rparr>
   \<and> ExtendedGroupElement_Equal \<lparr>Ext_X = 1, Ext_Y = 2, Ext_Z = 3, Ext_T = (5::rat)\<rparr>
         \<lparr>Ext_X = 2, Ext_Y = 4, Ext_Z = 6, Ext_T = (7::rat)\<rparr> = 1
   \<and> ProjP3_Equal \<lparr>P3_X = 1, P3_Y = 2, P3_Z = 3, P3_T = (5::rat)\<rparr>
         \<lparr>P3_X = 1, P3_Y = 1, P3_Z = 3, P3_T = (5::rat)\<rparr> = 0"
  using Equal_cross_multiplication[of "\<lparr>Ext_X = 1, Ext_Y = 2, Ext_Z = 3, Ext_T = (5::rat)\<rparr>"
      "\<lparr>Ext_X = 2, Ext_Y = 4, Ext_Z = 6, Ext_T = (7::rat)\<rparr>"
      "\<lparr>P3_X = 1, P3_Y = 2, P3_Z = 3, P3_T = (5::rat)\<rparr>"
      "\<lparr>P3_X = 1, P3_Y = 1, P3_Z = 3, P3_T = (5::rat)\<rparr>"]
  by auto

subsection \<open>The signed radix-16 digits\<close>

lemma length_nibbles: "length (nibbles b) = 2 * length b"
  by (induction b) (auto simp: nibbles_def)

lemma nibbles_snoc: "nibbles (xs @ [x]) = nibbles xs @ [x AND 15, drop_bit 4 x AND 15]"
  by (simp add: nibbles_def)

lemma split_loop:
  "n \<le> length b \<Longrightarrow> 2 * length b = m \<Longrightarrow>
   fold (signedRadix16_split b) [0..<n] (replicate m 0)
   = nibbles (take n b) @ replicate (m - 2 * n) 0"
proof (induction n)
  case 0
  then show ?case by (simp add: nibbles_def)
next
  case (Suc n)
  have n: "n < length b" using Suc.prems by simp
  have rep: "replicate (m - 2 * n) (0::int8) = 0 # 0 # replicate (m - 2 * Suc n) 0"
  proof -
    have "m - 2 * n = Suc (Suc (m - 2 * Suc n))" using Suc.prems by simp
    then show ?thesis by simp
  qed
  have l: "length (nibbles (take n b)) = 2 * n" using n by (simp add: length_nibbles)
  show ?case
    using Suc.IH Suc.prems n
    apply (simp add: signedRadix16_split_def Let_def take_Suc_conv_app_nth nibbles_snoc)
    apply (subst rep)
    apply (simp add: list_update_append l)
    done
qed

lemma recenter_word:
  fixes d e :: int8
  assumes d: "0 \<le> sint d" "sint d \<le> 16" and e: "0 \<le> sint e" "sint e \<le> 15"
  shows "sint (signed_drop_bit 4 (d + 8)) = (sint d + 8) div 16"
    and "sint (d - push_bit 4 (signed_drop_bit 4 (d + 8))) = sint d - 16 * ((sint d + 8) div 16)"
    and "sint (e + signed_drop_bit 4 (d + 8)) = sint e + (sint d + 8) div 16"
proof -
  have s8: "sint (d + 8) = sint d + 8"
    using d by (subst sint_plus_in_range) simp_all
  show c: "sint (signed_drop_bit 4 (d + 8)) = (sint d + 8) div 16"
    by (simp add: sint_sdrop s8)
  have cr: "0 \<le> (sint d + 8) div 16" "(sint d + 8) div 16 \<le> 1" using d by auto
  have p: "sint (push_bit 4 (signed_drop_bit 4 (d + 8))) = 16 * ((sint d + 8) div 16)"
    unfolding push_bit_eq_mult using cr c by (subst sint_times_in_range) simp_all
  show "sint (d - push_bit 4 (signed_drop_bit 4 (d + 8))) = sint d - 16 * ((sint d + 8) div 16)"
    using d cr p by (subst sint_minus_in_range) simp_all
  show "sint (e + signed_drop_bit 4 (d + 8)) = sint e + (sint d + 8) div 16"
    using e cr c by (subst sint_plus_in_range) simp_all
qed

lemma digits_val_update:
  "i < length ds \<Longrightarrow> digits_val r (ds[i := v]) = digits_val r ds + (sint v - sint (ds ! i)) * r ^ i"
proof (induction ds arbitrary: i)
  case Nil
  then show ?case by simp
next
  case (Cons d ds)
  show ?case
  proof (cases i)
    case 0
    then show ?thesis by simp
  next
    case (Suc n)
    then have "n < length ds" using Cons.prems by simp
    from Cons.IH[OF this] Suc show ?thesis by (simp add: ring_distribs)
  qed
qed

lemma recenter_inv_step:
  assumes d0: "\<forall>j<64. 0 \<le> sint (d0 ! j) \<and> sint (d0 ! j) \<le> 15" "sint (d0 ! 63) \<le> m"
    and k: "k < 63" and inv: "recenter_inv m d0 k d"
  shows "recenter_inv m d0 (Suc k) (signedRadix16_recenter k d)"
proof -
  let ?x = "sint (d ! k)"
  let ?c = "(?x + 8) div 16"
  have len: "length d = 64" using inv by (simp add: recenter_inv_def)
  have x: "0 \<le> ?x" "?x \<le> 16" using inv k by (simp_all add: recenter_inv_def)
  have nxt: "d ! Suc k = d0 ! Suc k" using inv k by (simp add: recenter_inv_def)
  have e: "0 \<le> sint (d ! Suc k)" "sint (d ! Suc k) \<le> 15" using d0(1) k nxt by simp_all
  note w = recenter_word[OF x e]
  have cr: "0 \<le> ?c" "?c \<le> 1" using x by auto
  have lo: "- 8 \<le> ?x - 16 * ?c" "?x - 16 * ?c \<le> 7" using x by auto
  let ?d1 = "d[k := d ! k - push_bit 4 (signed_drop_bit 4 (d ! k + 8))]"
  have step: "signedRadix16_recenter k d = ?d1[Suc k := d ! Suc k + signed_drop_bit 4 (d ! k + 8)]"
    using k len by (simp add: signedRadix16_recenter_def Let_def)
  have v1: "digits_val 16 ?d1 = digits_val 16 d + (- 16 * ?c) * 16 ^ k"
    using len k w(2) by (simp add: digits_val_update)
  have v2: "digits_val 16 (signedRadix16_recenter k d) = digits_val 16 ?d1 + ?c * 16 ^ Suc k"
    unfolding step using len k w(3) by (simp add: digits_val_update)
  have val: "digits_val 16 (signedRadix16_recenter k d) = digits_val 16 d0"
    using v1 v2 inv by (simp add: recenter_inv_def)
  have below: "\<forall>j<Suc k. - 8 \<le> sint (signedRadix16_recenter k d ! j) \<and> sint (signedRadix16_recenter k d ! j) \<le> 7"
  proof (intro allI impI)
    fix j assume j: "j < Suc k"
    show "- 8 \<le> sint (signedRadix16_recenter k d ! j) \<and> sint (signedRadix16_recenter k d ! j) \<le> 7"
    proof (cases "j = k")
      case True
      then show ?thesis unfolding step using len k w(2) lo by simp
    next
      case False
      then have "j < k" using j by simp
      then show ?thesis unfolding step using len k inv by (simp add: recenter_inv_def)
    qed
  qed
  have at: "sint (signedRadix16_recenter k d ! Suc k) = sint (d0 ! Suc k) + ?c"
    unfolding step using len k w(3) nxt by simp
  have here: "0 \<le> sint (signedRadix16_recenter k d ! Suc k)"
      "sint (signedRadix16_recenter k d ! Suc k) \<le> (if Suc k = 63 then m + 1 else 16)"
    using at cr e d0(2) k unfolding nxt by (auto split: if_splits)
  have above: "\<forall>j. Suc k < j \<and> j < 64 \<longrightarrow> signedRadix16_recenter k d ! j = d0 ! j"
    unfolding step using len inv by (simp add: recenter_inv_def)
  show ?thesis
    unfolding recenter_inv_def using len val below here above
    by (simp add: step)
qed

lemma recenter_loop:
  assumes d0: "\<forall>j<64. 0 \<le> sint (d0 ! j) \<and> sint (d0 ! j) \<le> 15" "sint (d0 ! 63) \<le> m"
    and len: "length d0 = 64" and k: "k \<le> 63"
  shows "recenter_inv m d0 k (fold signedRadix16_recenter [0..<k] d0)"
  using k
proof (induction k)
  case 0
  have "0 \<le> sint (d0 ! 0) \<and> sint (d0 ! 0) \<le> 15" using d0(1) by simp
  then show ?case using len by (simp add: recenter_inv_def)
next
  case (Suc k)
  then have "recenter_inv m d0 k (fold signedRadix16_recenter [0..<k] d0)" by simp
  from recenter_inv_step[OF d0 _ this] Suc.prems show ?case by simp
qed

lemma int_and_15: "(k::int) AND 15 = k mod 16"
proof -
  have "(15::int) = mask 4" by (simp add: mask_eq_exp_minus_1)
  then have "k AND 15 = take_bit 4 k" by (simp only: take_bit_eq_mask)
  then show ?thesis by (simp add: take_bit_eq_mod)
qed

lemma uint_low_nibble: "uint (x AND 15 :: byte) = uint x mod 16"
proof -
  have "uint (x AND 15) = uint x AND uint (15::byte)" by (rule unsigned_and_eq)
  also have "uint (15::byte) = 15" by simp
  finally show ?thesis by (simp only: int_and_15)
qed

lemma uint_drop_bit_4: "uint (drop_bit 4 x :: byte) = uint x div 16"
  by (simp add: drop_bit_eq_div uint_div_distrib)

lemma byte_div16: "0 \<le> uint (x::byte) div 16" "uint (x::byte) div 16 < 16"
  using uint_ge_0[of x] uint_bounded[of x] by (simp_all add: pos_imp_zdiv_nonneg_iff)

lemma uint_high_nibble: "uint (drop_bit 4 x AND 15 :: byte) = uint x div 16"
proof -
  have "uint (drop_bit 4 x AND 15) = uint (drop_bit 4 x) AND uint (15::byte)"
    by (rule unsigned_and_eq)
  also have "uint (15::byte) = 15" by simp
  finally have "uint (drop_bit 4 x AND 15) = (uint x div 16) mod 16"
    by (simp only: uint_drop_bit_4 int_and_15)
  then show ?thesis using byte_div16[of x] by simp
qed

lemma sint_small: "uint (x :: int8) < 128 \<Longrightarrow> sint x = uint x"
proof -
  assume a: "uint x < 128"
  have "- 128 \<le> uint x" using uint_ge_0[of x] by linarith
  then have "signed_take_bit 7 (uint x) = uint x"
    using a by (intro signed_take_bit_int_eq_self) simp_all
  then show ?thesis by (simp add: sint_uint)
qed

lemma sint_low_nibble: "sint (x AND 15 :: byte) = uint x mod 16"
proof -
  have "uint (x AND 15) < 128" unfolding uint_low_nibble
    using pos_mod_bound[of 16 "uint x"] by linarith
  then show ?thesis using sint_small[of "x AND 15"] by (simp only: uint_low_nibble)
qed

lemma sint_high_nibble: "sint (drop_bit 4 x AND 15 :: byte) = uint x div 16"
proof -
  have "uint (drop_bit 4 x AND 15) < 128" unfolding uint_high_nibble
    using byte_div16[of x] by linarith
  then show ?thesis using sint_small[of "drop_bit 4 x AND 15"] by (simp only: uint_high_nibble)
qed

lemma nibbles_Cons: "nibbles (x # xs) = (x AND 15) # (drop_bit 4 x AND 15) # nibbles xs"
  by (simp add: nibbles_def)

lemma nibbles_val: "digits_val 16 (nibbles b) = le_val b"
proof (induction b)
  case Nil
  show ?case by (simp add: nibbles_def)
next
  case (Cons x xs)
  have "digits_val 16 (nibbles (x # xs))
      = sint (x AND 15) + 16 * (sint (drop_bit 4 x AND 15) + 16 * digits_val 16 (nibbles xs))"
    by (simp only: nibbles_Cons digits_val.simps)
  also have "\<dots> = uint x mod 16 + 16 * (uint x div 16 + 16 * le_val xs)"
    unfolding sint_high_nibble Cons.IH by (simp only: sint_low_nibble)
  finally show ?case by simp
qed

lemma nibbles_range: "d \<in> set (nibbles b) \<Longrightarrow> 0 \<le> sint d \<and> sint d \<le> 15"
proof (induction b)
  case Nil
  then show ?case by (simp add: nibbles_def)
next
  case (Cons x xs)
  have lo: "0 \<le> sint (x AND 15) \<and> sint (x AND 15) \<le> 15"
    unfolding sint_low_nibble using pos_mod_bound[of 16 "uint x"] pos_mod_sign[of 16 "uint x"] by linarith
  have hi: "0 \<le> sint (drop_bit 4 x AND 15) \<and> sint (drop_bit 4 x AND 15) \<le> 15"
    unfolding sint_high_nibble using byte_div16[of x] by linarith
  have "d = x AND 15 \<or> d = drop_bit 4 x AND 15 \<or> d \<in> set (nibbles xs)"
    using Cons.prems by (simp only: nibbles_Cons set_simps insert_iff)
  then show ?case using lo hi Cons.IH by blast
qed

lemma nibbles_nth_odd: "i < length b \<Longrightarrow> nibbles b ! (2 * i + 1) = drop_bit 4 (b ! i) AND 15"
proof (induction b arbitrary: i)
  case Nil
  then show ?case by simp
next
  case (Cons x xs)
  show ?case
  proof (cases i)
    case 0
    have "nibbles (x # xs) ! Suc 0 = drop_bit 4 x AND 15"
      by (simp only: nibbles_Cons nth_Cons_Suc nth_Cons_0)
    then show ?thesis using 0 by simp
  next
    case (Suc n)
    then have n: "n < length xs" using Cons.prems by simp
    have "2 * i + 1 = Suc (Suc (2 * n + 1))" using Suc by simp
    then have "nibbles (x # xs) ! (2 * i + 1) = nibbles xs ! (2 * n + 1)"
      by (simp only: nibbles_Cons nth_Cons_Suc)
    then show ?thesis using Cons.IH[OF n] Suc by simp
  qed
qed

lemma top_byte_canonical:
  assumes "length b = 32" "le_val b < ell"
  shows "uint (b ! 31) div 16 \<le> 1"
proof -
  have "le_val (take (Suc 31) b) = le_val (take 31 b) + 256 ^ 31 * uint (b ! 31)"
    using assms(1) by (intro le_val_take_Suc) simp
  then have "le_val b = le_val (take 31 b) + 256 ^ 31 * uint (b ! 31)" using assms(1) by simp
  then have "256 ^ 31 * uint (b ! 31) \<le> le_val b" using le_val_nonneg[of "take 31 b"] by simp
  then have "256 ^ 31 * uint (b ! 31) < 2 ^ 253" using assms(2) ell_lt by simp
  then have "uint (b ! 31) < 32" by simp
  then show ?thesis by simp
qed

lemma signedRadix16_bytes_eq:
  assumes "length b = 32" "b ! 31 \<le> 127"
  shows "signedRadix16_bytes b = Inr (fold signedRadix16_recenter [0..<63] (nibbles b))"
proof -
  have "fold (signedRadix16_split b) [0..<32] (replicate 64 0) = nibbles (take 32 b) @ replicate (64 - 2 * 32) 0"
    using assms(1) by (intro split_loop) simp_all
  then have "fold (signedRadix16_split b) [0..<32] (replicate 64 0) = nibbles b" using assms(1) by simp
  moreover have "\<not> b ! 31 > 127" using assms(2) by simp
  ultimately show ?thesis by (simp add: signedRadix16_bytes_def Let_def)
qed

text \<open>
  On any 32 bytes with byte 31 at most 127 the routine returns 64 digits of the right
  value; the digits 0 to 62 lie in \<open>[-8, 7]\<close>, and the top digit, which the loop does not
  recentre, is the high half of byte 31 plus the carry: at most 2 when the bytes denote
  a value below \<open>l\<close>.
\<close>

lemma signedRadix16_bytes_digits:
  assumes "length b = 32" "b ! 31 \<le> 127"
  shows "\<exists>ds. signedRadix16_bytes b = Inr ds \<and> length ds = 64 \<and> digits_val 16 ds = le_val b
      \<and> (\<forall>i<63. - 8 \<le> sint (ds ! i) \<and> sint (ds ! i) \<le> 7)
      \<and> 0 \<le> sint (ds ! 63) \<and> sint (ds ! 63) \<le> 8
      \<and> (le_val b < ell \<longrightarrow> sint (ds ! 63) \<le> 2)"
proof -
  let ?d0 = "nibbles b"
  let ?ds = "fold signedRadix16_recenter [0..<63] ?d0"
  have len: "length ?d0 = 64" using assms(1) by (simp add: length_nibbles)
  have rng: "\<forall>j<64. 0 \<le> sint (?d0 ! j) \<and> sint (?d0 ! j) \<le> 15"
    using nibbles_range[of _ b] len by (metis nth_mem)
  have top: "sint (?d0 ! 63) = uint (b ! 31) div 16"
  proof -
    have "nibbles b ! 63 = drop_bit 4 (b ! 31) AND 15"
      using nibbles_nth_odd[of 31 b] assms(1) by simp
    then show ?thesis by (simp only: sint_high_nibble)
  qed
  have "uint (b ! 31) \<le> 127" using assms(2) by (simp add: word_le_def)
  then have t7: "sint (?d0 ! 63) \<le> 7" unfolding top by simp
  have i7: "recenter_inv 7 ?d0 63 ?ds" by (rule recenter_loop[OF rng t7 len]) simp
  have i1: "recenter_inv 1 ?d0 63 ?ds" if "le_val b < ell"
  proof -
    have "sint (?d0 ! 63) \<le> 1" unfolding top using top_byte_canonical[OF assms(1) that] .
    then show ?thesis by (intro recenter_loop[OF rng _ len]) simp_all
  qed
  have "signedRadix16_bytes b = Inr ?ds" by (rule signedRadix16_bytes_eq[OF assms])
  moreover have "length ?ds = 64" using i7 by (simp add: recenter_inv_def)
  moreover have "digits_val 16 ?ds = le_val b" using i7 by (simp add: recenter_inv_def nibbles_val)
  moreover have "\<forall>i<63. - 8 \<le> sint (?ds ! i) \<and> sint (?ds ! i) \<le> 7"
    using i7 by (simp add: recenter_inv_def)
  moreover have "0 \<le> sint (?ds ! 63) \<and> sint (?ds ! 63) \<le> 8" using i7 by (simp add: recenter_inv_def)
  moreover have "le_val b < ell \<longrightarrow> sint (?ds ! 63) \<le> 2" using i1 by (simp add: recenter_inv_def)
  ultimately show ?thesis by blast
qed


lemma Scalar_Bytes_canonical:
  "length (Scalar_Bytes sc) = 32" "le_val (Scalar_Bytes sc) < ell"
  using scalar_value_range(2)[of sc]
  by (simp_all add: Scalar_Bytes_def length_to_bytes scalar_value_def)

lemma Scalar_Bytes_top_byte: "Scalar_Bytes sc ! 31 \<le> 127"
proof -
  have "uint (Scalar_Bytes sc ! 31) div 16 \<le> 1"
    by (rule top_byte_canonical[OF Scalar_Bytes_canonical])
  then have "uint (Scalar_Bytes sc ! 31) \<le> 127" by linarith
  then show ?thesis by (simp add: word_le_def)
qed

text \<open>
  C4. The scalar encoding that \<open>signedRadix16\<close> reads is \<open>s.Bytes()\<close>: 32 bytes with the
  top bit clear. For every scalar the method does not panic and returns 64 signed
  digits, each in \<open>[-8, 7]\<close>, whose radix-16 value \<open>sum of digit[i] * 16^i\<close> is the
  integer the encoding denotes.
\<close>

theorem Scalar_signedRadix16_digits:
  "length (Scalar_Bytes sc) = 32 \<and> Scalar_Bytes sc ! 31 \<le> 127
   \<and> (\<exists>ds. Scalar_signedRadix16 sc = Inr ds \<and> length ds = 64
          \<and> list_all (\<lambda>d. - 8 \<le> sint d \<and> sint d \<le> 7) ds
          \<and> digits_val 16 ds = le_val (Scalar_Bytes sc)
          \<and> digits_val 16 ds = scalar_value sc)"
proof -
  let ?b = "Scalar_Bytes sc"
  note c = Scalar_Bytes_canonical[of sc]
  from signedRadix16_bytes_digits[OF c(1) Scalar_Bytes_top_byte]
  obtain ds where ds: "signedRadix16_bytes ?b = Inr ds" "length ds = 64"
      "digits_val 16 ds = le_val ?b"
      "\<forall>i<63. - 8 \<le> sint (ds ! i) \<and> sint (ds ! i) \<le> 7"
      "0 \<le> sint (ds ! 63)" "le_val ?b < ell \<longrightarrow> sint (ds ! 63) \<le> 2"
    by blast
  have top: "sint (ds ! 63) \<le> 2" using ds(6) c(2) by simp
  have "- 8 \<le> sint (ds ! i) \<and> sint (ds ! i) \<le> 7" if "i < length ds" for i
  proof (cases "i < 63")
    case True
    then show ?thesis using ds(4) by simp
  next
    case False
    then have "i = 63" using that ds(2) by simp
    then show ?thesis using ds(5) top by simp
  qed
  then have "list_all (\<lambda>d. - 8 \<le> sint d \<and> sint d \<le> 7) ds"
    by (simp add: list_all_length)
  then show ?thesis
    using ds(1,2,3) c(1) Scalar_Bytes_top_byte
    by (simp add: Scalar_signedRadix16_def scalar_value_def)
qed

subsection \<open>The non-adjacent form\<close>

text \<open>Bits of a little-endian byte string and of the 64-bit words read from it.\<close>

lemma le_val_Cons_concat: "le_val (x # xs) = concat_bit 8 (uint x) (le_val xs)"
proof -
  have "take_bit 8 (uint x) = uint x" by (simp add: take_bit_int_eq_self uint_bounded[of x, simplified])
  then show ?thesis by (simp add: concat_bit_eq push_bit_eq_mult)
qed

lemma div8_range:
  fixes n :: nat
  assumes "8 * k \<le> n" "n < 8 * k + 8"
  shows "n div 8 = k" "n mod 8 = n - 8 * k"
proof -
  define m where "m = n - 8 * k"
  have n: "n = 8 * k + m" and m: "m < 8" using assms by (simp_all add: m_def)
  show "n div 8 = k" unfolding n using m by simp
  show "n mod 8 = n - 8 * k" unfolding n using m by simp
qed

lemma div8_shift:
  fixes n :: nat
  assumes "8 \<le> n"
  shows "n div 8 = Suc ((n - 8) div 8)" "n mod 8 = (n - 8) mod 8"
  using assms by (simp_all add: le_div_geq le_mod_geq)

lemma bit_le_val:
  "bit (le_val bs) n \<longleftrightarrow> n div 8 < length bs \<and> bit (bs ! (n div 8)) (n mod 8)"
proof (induction bs arbitrary: n)
  case Nil
  show ?case by simp
next
  case (Cons x xs)
  show ?case
  proof (cases "n < 8")
    case True
    then show ?thesis
      unfolding le_val_Cons_concat bit_concat_bit_iff by (simp add: bit_uint_iff)
  next
    case False
    then have d: "n div 8 = Suc ((n - 8) div 8)" "n mod 8 = (n - 8) mod 8"
      by (simp_all add: div8_shift)
    show ?thesis
      unfolding le_val_Cons_concat bit_concat_bit_iff Cons.IH using False d by simp
  qed
qed

lemma bit_ucast_byte: "bit (ucast (b::byte) :: 64 word) n \<longleftrightarrow> n < 8 \<and> bit b n"
  by (auto simp: bit_simps dest: bit_imp_le_length)

lemma bit_push_byte:
  "k \<le> 56 \<Longrightarrow> bit (push_bit k (ucast (b::byte)) :: 64 word) n \<longleftrightarrow> k \<le> n \<and> n < k + 8 \<and> bit b (n - k)"
  by (auto simp: bit_simps dest: bit_imp_le_length)

lemma bit_Uint64:
  assumes "8 \<le> length bs"
  shows "bit (LittleEndian_Uint64 bs) n \<longleftrightarrow> n < 64 \<and> bit (bs ! (n div 8)) (n mod 8)"
proof -
  consider "n < 8" | "8 \<le> n" "n < 16" | "16 \<le> n" "n < 24" | "24 \<le> n" "n < 32" | "32 \<le> n" "n < 40"
    | "40 \<le> n" "n < 48" | "48 \<le> n" "n < 56" | "56 \<le> n" "n < 64" | "64 \<le> n" by linarith
  then show ?thesis
  proof cases
    case 1 then show ?thesis by (simp add: LittleEndian_Uint64_def bit_or_iff bit_ucast_byte bit_push_byte)
  next
    case 2 
    then have "n div 8 = 1" "n mod 8 = n - 8" using div8_range[of 1 n] by simp_all
    with 2 show ?thesis by (simp add: LittleEndian_Uint64_def bit_or_iff bit_ucast_byte bit_push_byte)
  next
    case 3
    then have "n div 8 = 2" "n mod 8 = n - 16" using div8_range[of 2 n] by simp_all
    with 3 show ?thesis by (simp add: LittleEndian_Uint64_def bit_or_iff bit_ucast_byte bit_push_byte)
  next
    case 4
    then have "n div 8 = 3" "n mod 8 = n - 24" using div8_range[of 3 n] by simp_all
    with 4 show ?thesis by (simp add: LittleEndian_Uint64_def bit_or_iff bit_ucast_byte bit_push_byte)
  next
    case 5
    then have "n div 8 = 4" "n mod 8 = n - 32" using div8_range[of 4 n] by simp_all
    with 5 show ?thesis by (simp add: LittleEndian_Uint64_def bit_or_iff bit_ucast_byte bit_push_byte)
  next
    case 6
    then have "n div 8 = 5" "n mod 8 = n - 40" using div8_range[of 5 n] by simp_all
    with 6 show ?thesis by (simp add: LittleEndian_Uint64_def bit_or_iff bit_ucast_byte bit_push_byte)
  next
    case 7
    then have "n div 8 = 6" "n mod 8 = n - 48" using div8_range[of 6 n] by simp_all
    with 7 show ?thesis by (simp add: LittleEndian_Uint64_def bit_or_iff bit_ucast_byte bit_push_byte)
  next
    case 8
    then have "n div 8 = 7" "n mod 8 = n - 56" using div8_range[of 7 n] by simp_all
    with 8 show ?thesis by (simp add: LittleEndian_Uint64_def bit_or_iff bit_ucast_byte bit_push_byte)
  next
    case 9 then show ?thesis by (simp add: LittleEndian_Uint64_def bit_or_iff bit_ucast_byte bit_push_byte)
  qed
qed

lemma naf_digits_nth:
  "naf_digits b ! 0 = LittleEndian_Uint64 b"
  "naf_digits b ! 1 = LittleEndian_Uint64 (drop 8 b)"
  "naf_digits b ! 2 = LittleEndian_Uint64 (drop 16 b)"
  "naf_digits b ! 3 = LittleEndian_Uint64 (drop 24 b)"
  "naf_digits b ! 4 = 0"
  by (simp_all add: naf_digits_def upt_conv_Cons numeral_eq_Suc)

lemma bit_naf_digits:
  assumes len: "length b = 32" and i: "i \<le> 4"
  shows "bit (naf_digits b ! i) m \<longleftrightarrow> m < 64 \<and> bit (le_val b) (64 * i + m)"
proof -
  have u: "bit (LittleEndian_Uint64 (drop k b)) m \<longleftrightarrow> m < 64 \<and> bit (b ! (k + m div 8)) (m mod 8)"
    if "k \<le> 24" for k
  proof -
    have "8 \<le> length (drop k b)" using len that by simp
    then show ?thesis using len that by (simp add: bit_Uint64)
  qed
  have v: "bit (le_val b) (8 * k + m) \<longleftrightarrow> k + m div 8 < 32 \<and> bit (b ! (k + m div 8)) (m mod 8)" for k
  proof -
    have "(8 * k + m) div 8 = k + m div 8" "(8 * k + m) mod 8 = m mod 8" by simp_all
    then show ?thesis using len by (simp add: bit_le_val)
  qed
  have lt: "k + m div 8 < 32" if "m < 64" "k \<le> 24" for k
  proof -
    have "m div 8 < 8" using that(1) by (intro less_mult_imp_div_less) simp
    then show ?thesis using that(2) by simp
  qed
  have main: "bit (LittleEndian_Uint64 (drop k b)) m \<longleftrightarrow> m < 64 \<and> bit (le_val b) (8 * k + m)"
    if "k \<le> 24" for k
    unfolding u[OF that] v using lt[OF _ that] by auto
  consider "i = 0" | "i = 1" | "i = 2" | "i = 3" | "i = 4" using i by linarith
  then show ?thesis
  proof cases
    case 1
    show ?thesis unfolding 1 naf_digits_nth using main[of 0] by simp
  next
    case 2
    show ?thesis unfolding 2 naf_digits_nth using main[of 8] by simp
  next
    case 3
    show ?thesis unfolding 3 naf_digits_nth using main[of 16] by simp
  next
    case 4
    show ?thesis unfolding 4 naf_digits_nth using main[of 24] by simp
  next
    case 5
    have "\<not> 32 + m div 8 < 32" by simp
    then show ?thesis unfolding 5 naf_digits_nth using v[of 32] by simp
  qed
qed

lemma bit_window:
  fixes digits :: "uint64 list"
  assumes dg: "\<And>i m. i \<le> 4 \<Longrightarrow> bit (digits ! i) m \<longleftrightarrow> m < 64 \<and> bit V (64 * i + m)"
    and pos: "pos < 256" and w: "w \<le> 8"
  shows "bit ((if pos mod 64 < 64 - w then drop_bit (pos mod 64) (digits ! (pos div 64))
               else drop_bit (pos mod 64) (digits ! (pos div 64))
                      OR push_bit (64 - pos mod 64) (digits ! (1 + pos div 64)))
              AND (push_bit w 1 - 1)) n
         \<longleftrightarrow> n < w \<and> bit V (pos + n)"
proof -
  define q where "q = pos div 64"
  define r where "r = pos mod 64"
  define A where "A = digits ! q"
  define B where "B = digits ! (1 + q)"
  have q: "q \<le> 4" "1 + q \<le> 4" using pos by (simp_all add: q_def)
  have p: "64 * q + r = pos" by (simp add: q_def r_def)
  have r: "r < 64" by (simp add: r_def)
  have m: "(push_bit w 1 - 1 :: uint64) = mask w" by (simp add: mask_eq_exp_minus_1)
  have bm: "bit (mask w :: uint64) n \<longleftrightarrow> n < w" using w by (auto simp: bit_mask_iff)
  have dA: "bit (drop_bit r A) n \<longleftrightarrow> r + n < 64 \<and> bit V (pos + n)"
  proof -
    have e: "64 * q + (r + n) = pos + n" using p by linarith
    have "bit (drop_bit r A) n = bit A (r + n)" by (simp add: bit_drop_bit_eq)
    also have "\<dots> \<longleftrightarrow> r + n < 64 \<and> bit V (64 * q + (r + n))"
      unfolding A_def by (rule dg[OF q(1)])
    finally show ?thesis unfolding e .
  qed
  have dB: "bit (push_bit (64 - r) B) n \<longleftrightarrow> 64 - r \<le> n \<and> n < 64 \<and> bit V (pos + n)"
  proof (cases "64 - r \<le> n \<and> n < 64")
    case True
    have a: "64 - r \<le> n" using True by simp
    have e0: "64 + (n - (64 - r)) = r + n" using a r by linarith
    have "64 * (1 + q) + (n - (64 - r)) = 64 * q + (64 + (n - (64 - r)))" by simp
    then have e: "64 * (1 + q) + (n - (64 - r)) = pos + n" unfolding e0 using p by simp
    have "bit B (n - (64 - r)) \<longleftrightarrow> n - (64 - r) < 64 \<and> bit V (64 * (1 + q) + (n - (64 - r)))"
      unfolding B_def by (rule dg[OF q(2)])
    moreover have "n - (64 - r) < 64" using True less_imp_diff_less[of n 64 "64 - r"] by blast
    ultimately have "bit B (n - (64 - r)) \<longleftrightarrow> bit V (pos + n)" unfolding e by simp
    then show ?thesis using True by (simp add: bit_push_bit_iff)
  next
    case False
    then show ?thesis by (auto simp: bit_push_bit_iff)
  qed
  have "bit ((if r < 64 - w then drop_bit r A else drop_bit r A OR push_bit (64 - r) B) AND mask w) n
         \<longleftrightarrow> n < w \<and> bit V (pos + n)"
  proof (cases "r < 64 - w")
    case True
    then have a: "n < w \<Longrightarrow> r + n < 64" by simp
    have i: "(if r < 64 - w then drop_bit r A else drop_bit r A OR push_bit (64 - r) B) = drop_bit r A"
      using True by simp
    show ?thesis unfolding i bit_and_iff bm dA using a by auto
  next
    case False
    have a: "n < w \<Longrightarrow> n < 64" using w by simp
    have b: "\<not> r + n < 64 \<Longrightarrow> 64 - r \<le> n" by simp
    have i: "(if r < 64 - w then drop_bit r A else drop_bit r A OR push_bit (64 - r) B)
        = drop_bit r A OR push_bit (64 - r) B"
      using False by simp
    show ?thesis unfolding i bit_and_iff bit_or_iff bm dA dB using a b by auto
  qed
  then show ?thesis unfolding m A_def B_def q_def r_def .
qed

lemma uint_window:
  fixes digits :: "uint64 list"
  assumes dg: "\<And>i m. i \<le> 4 \<Longrightarrow> bit (digits ! i) m \<longleftrightarrow> m < 64 \<and> bit V (64 * i + m)"
    and pos: "pos < 256" and w: "w \<le> 8"
  shows "uint ((if pos mod 64 < 64 - w then drop_bit (pos mod 64) (digits ! (pos div 64))
               else drop_bit (pos mod 64) (digits ! (pos div 64))
                      OR push_bit (64 - pos mod 64) (digits ! (1 + pos div 64)))
              AND (push_bit w 1 - 1))
         = take_bit w (drop_bit pos V)"
proof (rule bit_eqI)
  fix n
  let ?X = "(if pos mod 64 < 64 - w then drop_bit (pos mod 64) (digits ! (pos div 64))
               else drop_bit (pos mod 64) (digits ! (pos div 64))
                      OR push_bit (64 - pos mod 64) (digits ! (1 + pos div 64)))
              AND (push_bit w 1 - 1)"
  have "bit ?X n \<longleftrightarrow> n < w \<and> bit V (pos + n)" by (rule bit_window[OF dg pos w])
  moreover have "n < w \<Longrightarrow> n < LENGTH(64)" using w by simp
  ultimately have "bit (uint ?X) n \<longleftrightarrow> n < w \<and> bit V (pos + n)"
    unfolding bit_uint_iff by blast
  then show "bit (uint ?X) n = bit (take_bit w (drop_bit pos V)) n"
    by (simp only: bit_take_bit_iff bit_drop_bit_eq comp_def)
qed

lemma pow2_mono_le8: "w \<le> 8 \<Longrightarrow> (2::int) ^ w \<le> 256"
  using power_increasing[of w 8 "2::int"] by simp

lemma sint_word_of_int8: "- 128 \<le> k \<Longrightarrow> k < 128 \<Longrightarrow> sint (word_of_int k :: int8) = k"
proof -
  assume a: "- 128 \<le> k" "k < 128"
  have "signed_take_bit 7 k = k" using a by (intro signed_take_bit_int_eq_self) simp_all
  then show ?thesis by (simp add: signed_of_int)
qed

lemma naf_window_word:
  fixes carry bb :: uint64
  assumes c: "carry = 0 \<or> carry = 1" and ch: "uint bb = ch" "ch < 2 ^ w" and w: "2 \<le> w" "w \<le> 8"
  shows "uint (carry + bb) = uint carry + ch"
    and "(carry + bb) AND 1 = 0 \<longleftrightarrow> even (uint carry + ch)"
    and "carry + bb < push_bit w 1 div 2 \<longleftrightarrow> uint carry + ch < 2 ^ (w - 1)"
    and "uint carry + ch < 2 ^ (w - 1) \<Longrightarrow> sint (ucast (carry + bb) :: int8) = uint carry + ch"
    and "2 ^ (w - 1) \<le> uint carry + ch \<Longrightarrow> uint carry + ch < 2 ^ w
         \<Longrightarrow> sint (ucast (carry + bb) - ucast (push_bit w 1 :: uint64) :: int8) = uint carry + ch - 2 ^ w"
proof -
  have c01: "0 \<le> uint carry" "uint carry \<le> 1" using c by auto
  have ch0: "0 \<le> ch" using ch(1) uint_ge_0[of bb] by simp
  have p8: "(2::int) ^ w \<le> 256" by (rule pow2_mono_le8[OF w(2)])
  have "uint carry + uint bb < 2 ^ LENGTH(64)" using c01 ch p8 by simp
  then have "uint (carry + bb) = uint carry + uint bb" by (simp only: uint_add_lem)
  then show uw: "uint (carry + bb) = uint carry + ch" by (simp only: ch(1))
  have "uint ((carry + bb) AND 1) = uint (carry + bb) AND uint (1::uint64)" by (rule unsigned_and_eq)
  then have "uint ((carry + bb) AND 1) = (uint carry + ch) mod 2" by (simp add: uw and_one_eq)
  moreover have "(carry + bb) AND 1 = 0 \<longleftrightarrow> uint ((carry + bb) AND 1) = 0" by (simp only: uint_0_iff)
  ultimately show "(carry + bb) AND 1 = 0 \<longleftrightarrow> even (uint carry + ch)"
    by (simp add: even_iff_mod_2_eq_zero)
  have width: "uint (push_bit w 1 :: uint64) = 2 ^ w"
  proof -
    have lt: "(2::int) ^ w < 2 ^ 64" using p8 by simp
    have "uint (push_bit w 1 :: uint64) = take_bit LENGTH(64) (push_bit w (uint (1::uint64)))"
      by (rule unsigned_push_bit_eq)
    also have "push_bit w (uint (1::uint64)) = 2 ^ w" by (simp add: push_bit_eq_mult)
    also have "take_bit LENGTH(64) ((2::int) ^ w) = 2 ^ w"
      using lt by (intro take_bit_int_eq_self) simp_all
    finally show ?thesis .
  qed
  have half: "uint (push_bit w 1 div 2 :: uint64) = 2 ^ (w - 1)"
  proof -
    have "uint (push_bit w 1 div 2 :: uint64) = uint (push_bit w 1 :: uint64) div uint (2 :: uint64)"
      by (rule uint_div_distrib)
    also have "\<dots> = 2 ^ w div 2" unfolding width by simp
    also have "\<dots> = (2::int) ^ (w - 1)" using w(1) by (cases w) simp_all
    finally show ?thesis .
  qed
  show "carry + bb < push_bit w 1 div 2 \<longleftrightarrow> uint carry + ch < 2 ^ (w - 1)"
    by (simp only: word_less_def half uw)
  have h8: "(2::int) ^ (w - 1) \<le> 128"
    using power_increasing[of "w - 1" 7 "2::int"] w(2) by simp
  have p7: "(2::int) ^ 7 = 128" by simp
  have uc: "(ucast (carry + bb) :: int8) = word_of_int (uint carry + ch)"
    by (simp only: ucast_eq uw)
  show "sint (ucast (carry + bb) :: int8) = uint carry + ch" if "uint carry + ch < 2 ^ (w - 1)"
  proof -
    have lo: "- 128 \<le> uint carry + ch" using uint_ge_0[of carry] ch0 by linarith
    have hi: "uint carry + ch < 128" using that h8 by linarith
    show ?thesis unfolding uc by (rule sint_word_of_int8[OF lo hi])
  qed
  show "sint (ucast (carry + bb) - ucast (push_bit w 1 :: uint64) :: int8) = uint carry + ch - 2 ^ w"
    if "2 ^ (w - 1) \<le> uint carry + ch" "uint carry + ch < 2 ^ w"
  proof -
    have uw2: "(ucast (push_bit w 1 :: uint64) :: int8) = word_of_int (2 ^ w)"
      by (simp only: ucast_eq width)
    have e: "(ucast (carry + bb) - ucast (push_bit w 1 :: uint64) :: int8)
        = word_of_int (uint carry + ch - 2 ^ w)"
      unfolding uc uw2 by simp
    have dbl: "(2::int) ^ w = 2 * 2 ^ (w - 1)" using w(1) by (cases w) simp_all
    have lo: "- 128 \<le> uint carry + ch - 2 ^ w" using that(1) h8 dbl by linarith
    have hi: "uint carry + ch - 2 ^ w < 128" using that(2) by linarith
    show ?thesis unfolding e by (rule sint_word_of_int8[OF lo hi])
  qed
qed

lemma take_bit_split:
  "take_bit (pos + w) (V::int) = take_bit pos V + 2 ^ pos * take_bit w (drop_bit pos V)"
proof -
  have "V mod (2 ^ pos * 2 ^ w) = 2 ^ pos * (V div 2 ^ pos mod 2 ^ w) + V mod 2 ^ pos"
    by (rule zmod_zmult2_eq) simp
  then show ?thesis by (simp add: take_bit_eq_mod drop_bit_eq_div power_add)
qed

lemma naf_arith_even:
  fixes V c :: int
  assumes c: "c = 0 \<or> c = 1" and w: "1 \<le> w" and ev: "even (c + take_bit w (drop_bit pos V))"
  shows "take_bit (Suc pos) V - c * 2 ^ Suc pos = take_bit pos V - c * 2 ^ pos"
    and "c = 1 \<Longrightarrow> bit V pos"
proof -
  have o: "odd (take_bit w (drop_bit pos V)) \<longleftrightarrow> bit V pos"
    using w by (simp add: bit_iff_odd_drop_bit)
  from c ev o have cb: "c = of_bool (bit V pos)" by auto
  show "c = 1 \<Longrightarrow> bit V pos" using cb by (auto split: if_splits)
  show "take_bit (Suc pos) V - c * 2 ^ Suc pos = take_bit pos V - c * 2 ^ pos"
    unfolding take_bit_Suc_from_most cb by simp
qed

lemma bit_below_bound:
  fixes V :: int
  assumes "0 \<le> V" "V < 2 ^ n" "bit V pos"
  shows "pos < n"
proof (rule ccontr)
  assume "\<not> pos < n"
  then have "n \<le> pos" by simp
  then have "(2::int) ^ n \<le> 2 ^ pos" by (intro power_increasing) simp_all
  then have "V < 2 ^ pos" using assms(2) by linarith
  then have "V div 2 ^ pos = 0" using assms(1) by simp
  then show False using assms(3) by (simp add: bit_iff_odd)
qed

lemma int_div_less:
  fixes V a b :: int
  assumes "V < 2 ^ n * b"
  shows "V div 2 ^ n < b"
proof (rule ccontr)
  assume "\<not> V div 2 ^ n < b"
  then have "b \<le> V div 2 ^ n" by simp
  then have "2 ^ n * b \<le> 2 ^ n * (V div 2 ^ n)" by (intro mult_left_mono) simp_all
  moreover have "2 ^ n * (V div 2 ^ n) \<le> V"
  proof -
    have "(0::int) < 2 ^ n" by simp
    then have "0 \<le> V mod 2 ^ n" by (rule pos_mod_sign)
    then show ?thesis using mult_div_mod_eq[of "2 ^ n" V] by linarith
  qed
  ultimately show False using assms by linarith
qed

lemma naf_arith_large:
  fixes V c :: int
  assumes V: "0 \<le> V" "V < 2 ^ 255" and c: "c = 0 \<or> c = 1" and w: "2 \<le> w" and pos: "pos < 256"
    and od: "odd (c + take_bit w (drop_bit pos V))"
    and big: "2 ^ (w - 1) \<le> c + take_bit w (drop_bit pos V)"
  shows "pos + w < 256"
proof (rule ccontr)
  assume "\<not> pos + w < 256"
  then have pw: "255 - pos \<le> w - 1" using pos by simp
  let ?ch = "take_bit w (drop_bit pos V)"
  have "V < 2 ^ pos * 2 ^ (255 - pos)"
    using V(2) pos by (simp add: power_add[symmetric])
  then have "V div 2 ^ pos < 2 ^ (255 - pos)"
    by (rule int_div_less)
  then have "drop_bit pos V < 2 ^ (255 - pos)" by (simp only: drop_bit_eq_div)
  moreover have "(2::int) ^ (255 - pos) \<le> 2 ^ (w - 1)" using pw by (intro power_increasing) simp_all
  moreover have "?ch \<le> drop_bit pos V"
    using V(1) by (simp add: take_bit_int_less_eq_self_iff drop_bit_eq_div pos_imp_zdiv_nonneg_iff)
  ultimately have "?ch < 2 ^ (w - 1)" by linarith
  then have "c + ?ch \<le> 2 ^ (w - 1)" using c by auto
  with big have "c + ?ch = 2 ^ (w - 1)" by simp
  moreover have "even ((2::int) ^ (w - 1))" using w by simp
  ultimately have "even (c + ?ch)" by (simp only:)
  then show False using od by blast
qed

lemma naf_arith_digit:
  fixes c ch :: int
  assumes c: "c = 0 \<or> c = 1" and ch: "0 \<le> ch" "ch < 2 ^ w" and w: "2 \<le> w" and od: "odd (c + ch)"
  shows "c + ch < 2 ^ w"
    and "2 ^ (w - 1) \<le> c + ch \<Longrightarrow> \<bar>c + ch - 2 ^ w\<bar> < 2 ^ (w - 1)"
    and "odd (c + ch - 2 ^ w)" and "c + ch \<noteq> 0" and "c + ch - 2 ^ w \<noteq> 0"
proof -
  have e: "even ((2::int) ^ w)" "even ((2::int) ^ (w - 1))" using w by simp_all
  have dbl: "(2::int) ^ w = 2 * 2 ^ (w - 1)" using w by (cases w) simp_all
  have "c + ch \<le> 2 ^ w" using c ch by auto
  moreover have "c + ch \<noteq> 2 ^ w"
  proof
    assume "c + ch = 2 ^ w"
    then have "even (c + ch)" by (simp only: e(1))
    then show False using od by blast
  qed
  ultimately show lt: "c + ch < 2 ^ w" by simp
  show "odd (c + ch - 2 ^ w)" using od e(1) by simp
  show "c + ch \<noteq> 0"
  proof
    assume "c + ch = 0"
    then have "even (c + ch)" by (simp only: even_zero)
    then show False using od by blast
  qed
  show "c + ch - 2 ^ w \<noteq> 0" using lt by simp
  show "\<bar>c + ch - 2 ^ w\<bar> < 2 ^ (w - 1)" if "2 ^ (w - 1) \<le> c + ch"
  proof -
    have "c + ch \<noteq> 2 ^ (w - 1)"
    proof
      assume "c + ch = 2 ^ (w - 1)"
      then have "even (c + ch)" by (simp only: e(2))
      then show False using od by blast
    qed
    then have "2 ^ (w - 1) < c + ch" using that by simp
    then show ?thesis using lt dbl by simp
  qed
qed

lemma naf_step:
  fixes digits :: "uint64 list"
  assumes V: "0 \<le> V" "V < 2 ^ 255" and w: "2 \<le> w" "w \<le> 8"
    and dg: "\<forall>i m. i \<le> 4 \<longrightarrow> (bit (digits ! i) m \<longleftrightarrow> m < 64 \<and> bit V (64 * i + m))"
    and pos: "pos < 256" and inv: "naf_inv V w pos carry naf"
  shows "(carry + naf_window w digits pos) AND 1 = 0 \<Longrightarrow> naf_inv V w (pos + 1) carry naf"
    and "(carry + naf_window w digits pos) AND 1 \<noteq> 0 \<Longrightarrow>
         carry + naf_window w digits pos < push_bit w 1 div 2 \<Longrightarrow>
         naf_inv V w (pos + w) 0 (naf[pos := ucast (carry + naf_window w digits pos)])"
    and "(carry + naf_window w digits pos) AND 1 \<noteq> 0 \<Longrightarrow>
         \<not> carry + naf_window w digits pos < push_bit w 1 div 2 \<Longrightarrow>
         naf_inv V w (pos + w) 1
           (naf[pos := ucast (carry + naf_window w digits pos) - ucast (push_bit w 1 :: uint64)])"
proof -
  let ?bb = "naf_window w digits pos"
  let ?ch = "take_bit w (drop_bit pos V)"
  let ?c = "uint carry"
  have len: "length naf = 256" and c: "carry = 0 \<or> carry = 1"
    and val: "digits_val 2 naf = take_bit pos V - ?c * 2 ^ pos"
    and zero: "\<forall>j. pos \<le> j \<and> j < 256 \<longrightarrow> naf ! j = 0"
    and dig: "\<forall>j<256. sint (naf ! j) \<noteq> 0 \<longrightarrow> odd (sint (naf ! j)) \<and> \<bar>sint (naf ! j)\<bar> < 2 ^ (w - 1)"
    using inv by (simp_all add: naf_inv_def)
  have ubb: "uint ?bb = ?ch" unfolding naf_window_def using dg by (intro uint_window[OF _ pos w(2)]) blast
  have ch: "0 \<le> ?ch" "?ch < 2 ^ w" by simp_all
  have ci: "?c = 0 \<or> ?c = 1" using c by auto
  note ww = naf_window_word[OF c ubb ch(2) w]
  have w1: "1 \<le> w" using w(1) by simp
  have at0: "sint (naf ! pos) = 0" using zero pos by simp
  have split: "take_bit (pos + w) V = take_bit pos V + 2 ^ pos * ?ch" by (rule take_bit_split)
  show "naf_inv V w (pos + 1) carry naf" if "(carry + ?bb) AND 1 = 0"
  proof -
    have ev: "even (?c + ?ch)" using that ww(2) by simp
    note ae = naf_arith_even[OF ci w1 ev]
    have "carry = 1 \<longrightarrow> pos + 1 < 256"
    proof
      assume "carry = 1"
      then have "bit V pos" using ae(2) by simp
      then have "pos < 255" by (rule bit_below_bound[OF V])
      then show "pos + 1 < 256" by simp
    qed
    moreover have "digits_val 2 naf = take_bit (pos + 1) V - ?c * 2 ^ (pos + 1)"
      using val ae(1) by simp
    ultimately show ?thesis
      unfolding naf_inv_def using len c zero dig by simp
  qed
  show "naf_inv V w (pos + w) 0 (naf[pos := ucast (carry + ?bb)])"
    if "(carry + ?bb) AND 1 \<noteq> 0" "carry + ?bb < push_bit w 1 div 2"
  proof -
    have od: "odd (?c + ?ch)" using that(1) ww(2) by simp
    have small: "?c + ?ch < 2 ^ (w - 1)" using that(2) ww(3) by simp
    have d: "sint (ucast (carry + ?bb) :: int8) = ?c + ?ch" by (rule ww(4)[OF small])
    note ad = naf_arith_digit[OF ci ch w(1) od]
    have nn: "0 \<le> ?c + ?ch" using ch(1) by simp
    have "digits_val 2 (naf[pos := ucast (carry + ?bb)])
        = digits_val 2 naf + (sint (ucast (carry + ?bb) :: int8) - sint (naf ! pos)) * 2 ^ pos"
      using len pos by (intro digits_val_update) simp
    then have "digits_val 2 (naf[pos := ucast (carry + ?bb)]) = take_bit (pos + w) V"
      unfolding d at0 val split by (simp add: algebra_simps)
    moreover have "\<forall>j. pos + w \<le> j \<and> j < 256 \<longrightarrow> naf[pos := ucast (carry + ?bb)] ! j = 0"
      using zero w1 by simp
    moreover have "\<forall>j<256. sint (naf[pos := ucast (carry + ?bb)] ! j) \<noteq> 0 \<longrightarrow>
        odd (sint (naf[pos := ucast (carry + ?bb)] ! j)) \<and> \<bar>sint (naf[pos := ucast (carry + ?bb)] ! j)\<bar> < 2 ^ (w - 1)"
    proof (intro allI impI)
      fix j assume j: "j < 256" and nz: "sint (naf[pos := ucast (carry + ?bb)] ! j) \<noteq> 0"
      show "odd (sint (naf[pos := ucast (carry + ?bb)] ! j)) \<and> \<bar>sint (naf[pos := ucast (carry + ?bb)] ! j)\<bar> < 2 ^ (w - 1)"
      proof (cases "j = pos")
        case True
        then show ?thesis using len pos d od small nn by simp
      next
        case False
        then show ?thesis using dig j nz by simp
      qed
    qed
    ultimately show ?thesis unfolding naf_inv_def using len by simp
  qed
  show "naf_inv V w (pos + w) 1 (naf[pos := ucast (carry + ?bb) - ucast (push_bit w 1 :: uint64)])"
    if "(carry + ?bb) AND 1 \<noteq> 0" "\<not> carry + ?bb < push_bit w 1 div 2"
  proof -
    let ?d = "ucast (carry + ?bb) - ucast (push_bit w 1 :: uint64) :: int8"
    have od: "odd (?c + ?ch)" using that(1) ww(2) by simp
    have big: "2 ^ (w - 1) \<le> ?c + ?ch" using that(2) ww(3) by simp
    note ad = naf_arith_digit[OF ci ch w(1) od]
    have d: "sint ?d = ?c + ?ch - 2 ^ w" by (rule ww(5)[OF big ad(1)])
    have pw: "pos + w < 256" by (rule naf_arith_large[OF V ci w(1) pos od big])
    have "digits_val 2 (naf[pos := ?d]) = digits_val 2 naf + (sint ?d - sint (naf ! pos)) * 2 ^ pos"
      using len pos by (intro digits_val_update) simp
    then have "digits_val 2 (naf[pos := ?d]) = take_bit (pos + w) V - 2 ^ (pos + w)"
      unfolding d at0 val split by (simp add: algebra_simps power_add)
    moreover have "\<forall>j. pos + w \<le> j \<and> j < 256 \<longrightarrow> naf[pos := ?d] ! j = 0"
      using zero w1 by simp
    moreover have "\<forall>j<256. sint (naf[pos := ?d] ! j) \<noteq> 0 \<longrightarrow>
        odd (sint (naf[pos := ?d] ! j)) \<and> \<bar>sint (naf[pos := ?d] ! j)\<bar> < 2 ^ (w - 1)"
    proof (intro allI impI)
      fix j assume j: "j < 256" and nz: "sint (naf[pos := ?d] ! j) \<noteq> 0"
      show "odd (sint (naf[pos := ?d] ! j)) \<and> \<bar>sint (naf[pos := ?d] ! j)\<bar> < 2 ^ (w - 1)"
      proof (cases "j = pos")
        case True
        then show ?thesis using len pos d ad(2)[OF big] ad(3) by simp
      next
        case False
        then show ?thesis using dig j nz by simp
      qed
    qed
    ultimately show ?thesis unfolding naf_inv_def using len pw by simp
  qed
qed

lemma naf_loop_unfold:
  "nonAdjacentForm_loop w digits pos carry naf =
     (if pos < 256 then
        if (carry + naf_window w digits pos) AND 1 = 0
          then nonAdjacentForm_loop w digits (pos + 1) carry naf
        else if carry + naf_window w digits pos < push_bit w 1 div 2
          then nonAdjacentForm_loop w digits (pos + w) 0
                 (naf[pos := ucast (carry + naf_window w digits pos)])
          else nonAdjacentForm_loop w digits (pos + w) 1
                 (naf[pos := ucast (carry + naf_window w digits pos) - ucast (push_bit w 1 :: uint64)])
      else Some naf)"
  by (subst nonAdjacentForm_loop.simps) (simp add: Let_def naf_window_def)

lemma naf_loop:
  fixes digits :: "uint64 list"
  assumes V: "0 \<le> V" "V < 2 ^ 255" and w: "2 \<le> w" "w \<le> 8"
    and dg: "\<forall>i m. i \<le> 4 \<longrightarrow> (bit (digits ! i) m \<longleftrightarrow> m < 64 \<and> bit V (64 * i + m))"
  shows "naf_inv V w pos carry naf \<Longrightarrow>
     \<exists>r. nonAdjacentForm_loop w digits pos carry naf = Some r \<and> length r = 256
        \<and> digits_val 2 r = V \<and> list_all (naf_digit_ok w) r"
proof (induction "256 - pos" arbitrary: pos carry naf rule: less_induct)
  case less
  note inv = less.prems
  show ?case
  proof (cases "pos < 256")
    case False
    have len: "length naf = 256" using inv by (simp add: naf_inv_def)
    have c0: "carry = 0" using inv False by (auto simp: naf_inv_def)
    have "(2::int) ^ 255 \<le> 2 ^ pos" using False by (intro power_increasing) simp_all
    then have "V < 2 ^ pos" using V(2) by linarith
    then have "take_bit pos V = V" using V(1) by (simp add: take_bit_int_eq_self)
    then have val: "digits_val 2 naf = V" using inv c0 by (simp add: naf_inv_def)
    have "list_all (naf_digit_ok w) naf"
      using inv len by (auto simp: naf_inv_def list_all_length naf_digit_ok_def)
    moreover have "nonAdjacentForm_loop w digits pos carry naf = Some naf"
      using False by (subst naf_loop_unfold) simp
    ultimately show ?thesis using len val by simp
  next
    case True
    note st = naf_step[OF V w dg True inv]
    have m1: "256 - (pos + 1) < 256 - pos" using True by simp
    have mw: "256 - (pos + w) < 256 - pos" using True w(1) by simp
    let ?win = "carry + naf_window w digits pos"
    show ?thesis
    proof (cases "?win AND 1 = 0")
      case e: True
      have "nonAdjacentForm_loop w digits pos carry naf = nonAdjacentForm_loop w digits (pos + 1) carry naf"
        using True e by (subst naf_loop_unfold) simp
      then show ?thesis using less.hyps[OF m1 st(1)[OF e]] by simp
    next
      case o: False
      show ?thesis
      proof (cases "?win < push_bit w 1 div 2")
        case s: True
        have "nonAdjacentForm_loop w digits pos carry naf
            = nonAdjacentForm_loop w digits (pos + w) 0 (naf[pos := ucast ?win])"
          using True o s by (subst naf_loop_unfold) simp
        then show ?thesis using less.hyps[OF mw st(2)[OF o s]] by simp
      next
        case l: False
        have "nonAdjacentForm_loop w digits pos carry naf
            = nonAdjacentForm_loop w digits (pos + w) 1
                (naf[pos := ucast ?win - ucast (push_bit w 1 :: uint64)])"
          using True o l by (subst naf_loop_unfold) simp
        then show ?thesis using less.hyps[OF mw st(3)[OF o l]] by simp
      qed
    qed
  qed
qed

lemma digits_val_replicate_0: "digits_val r (replicate n 0) = 0"
  by (induction n) simp_all

lemma le_val_top_clear:
  assumes "length b = 32" "b ! 31 \<le> 127"
  shows "le_val b < 2 ^ 255"
proof -
  have "le_val (take (Suc 31) b) = le_val (take 31 b) + 256 ^ 31 * uint (b ! 31)"
    using assms(1) by (intro le_val_take_Suc) simp
  then have e: "le_val b = le_val (take 31 b) + 256 ^ 31 * uint (b ! 31)" using assms(1) by simp
  have "le_val (take 31 b) < 256 ^ 31" using le_val_bound[of "take 31 b"] assms(1) by simp
  moreover have "uint (b ! 31) \<le> 127" using assms(2) by (simp add: word_le_def)
  ultimately show ?thesis unfolding e by simp
qed

lemma nonAdjacentForm_bytes_digits:
  assumes len: "length b = 32" and top: "b ! 31 \<le> 127" and w: "2 \<le> w" "w \<le> 8"
  shows "\<exists>ds. nonAdjacentForm_bytes b w = Some (Inr ds) \<and> length ds = 256
      \<and> digits_val 2 ds = le_val b \<and> list_all (naf_digit_ok w) ds"
proof -
  have V: "0 \<le> le_val b" "le_val b < 2 ^ 255"
    using le_val_nonneg le_val_top_clear[OF len top] by simp_all
  have inv0: "naf_inv (le_val b) w 0 0 (replicate 256 0)"
    by (simp add: naf_inv_def digits_val_replicate_0)
  have dg: "\<forall>i m. i \<le> 4 \<longrightarrow>
      (bit (naf_digits b ! i) m \<longleftrightarrow> m < 64 \<and> bit (le_val b) (64 * i + m))"
    using bit_naf_digits[OF len] by blast
  from naf_loop[OF V w dg inv0]
  obtain r where r: "nonAdjacentForm_loop w (naf_digits b) 0 0 (replicate 256 0) = Some r"
      "length r = 256" "digits_val 2 r = le_val b" "list_all (naf_digit_ok w) r"
    by blast
  have "nonAdjacentForm_bytes b w = Some (Inr r)"
    using top w r(1) by (simp add: nonAdjacentForm_bytes_def naf_digits_def Let_def)
  then show ?thesis using r by blast
qed

text \<open>
  C5. The encoding \<open>nonAdjacentForm\<close> reads is \<open>s.Bytes()\<close>, whose top bit is clear. For
  every scalar and every width \<open>w\<close> from 2 to 8 the method returns 256 signed digits
  whose value \<open>sum of digit[i] * 2^i\<close> is the scalar's integer, and every digit is zero or
  odd with absolute value below \<open>2 ^ (w - 1)\<close>.
\<close>

theorem Scalar_nonAdjacentForm_digits:
  assumes "2 \<le> w" "w \<le> 8"
  shows "Scalar_Bytes sc ! 31 \<le> 127
    \<and> (\<exists>ds. Scalar_nonAdjacentForm sc w = Some (Inr ds) \<and> length ds = 256
           \<and> digits_val 2 ds = scalar_value sc
           \<and> list_all (\<lambda>d. sint d = 0 \<or> (odd (sint d) \<and> \<bar>sint d\<bar> < 2 ^ (w - 1))) ds)"
proof -
  from nonAdjacentForm_bytes_digits[OF Scalar_Bytes_canonical(1) Scalar_Bytes_top_byte assms]
  obtain ds where "nonAdjacentForm_bytes (Scalar_Bytes sc) w = Some (Inr ds)" "length ds = 256"
      "digits_val 2 ds = le_val (Scalar_Bytes sc)" "list_all (naf_digit_ok w) ds"
    by blast
  then show ?thesis
    using Scalar_Bytes_top_byte
    by (auto simp: Scalar_nonAdjacentForm_def scalar_value_def naf_digit_ok_def list_all_iff)
qed

text \<open>The scalar one with width 5.\<close>

theorem Scalar_nonAdjacentForm_digits_witness:
  "(2::nat) \<le> 5 \<and> (5::nat) \<le> 8
   \<and> (\<exists>ds. Scalar_nonAdjacentForm scOne 5 = Some (Inr ds) \<and> length ds = 256
          \<and> digits_val 2 ds = 1)"
proof -
  have h1: "(2::nat) \<le> 5" and h2: "(5::nat) \<le> 8" by simp_all
  from Scalar_nonAdjacentForm_digits[OF h1 h2, of scOne] h1 h2 show ?thesis
    by (auto simp: scOne_value)
qed

subsection \<open>The three panics\<close>

lemma nonAdjacentForm_bytes_panics:
  "(\<exists>m. nonAdjacentForm_bytes b w = Some (Inl m)) \<longleftrightarrow> w < 2 \<or> 8 < w \<or> 127 < b ! 31"
  by (auto simp: nonAdjacentForm_bytes_def Let_def map_option_case split: option.splits)

lemma signedRadix16_bytes_panics:
  "(\<exists>m. signedRadix16_bytes b = Inl m) \<longleftrightarrow> 127 < b ! 31"
  by (simp add: signedRadix16_bytes_def Let_def)

lemma DoubleZ1_panics:
  "(\<exists>m. ProjectiveGroupElement_DoubleZ1 u = Inl m) \<longleftrightarrow> Proj_Z u \<noteq> 1"
  by (simp add: ProjectiveGroupElement_DoubleZ1_def fe_Equal_def Let_def)

text \<open>
  C9. On the 32 bytes \<open>b\<close> that \<open>s.Bytes()\<close> returned: \<open>nonAdjacentForm\<close> panics exactly
  when \<open>w < 2\<close> or \<open>w > 8\<close> or byte 31 exceeds 127, and otherwise returns its digits;
  \<open>signedRadix16\<close> panics exactly when byte 31 exceeds 127, and otherwise returns its
  digits; \<open>DoubleZ1\<close> panics exactly when the operand's \<open>Z\<close> is not the field's one, and
  otherwise returns a point. On a scalar, whose encoding always has byte 31 at most
  127, \<open>nonAdjacentForm\<close> panics exactly when \<open>w < 2\<close> or \<open>w > 8\<close> and \<open>signedRadix16\<close>
  never panics.
\<close>

theorem panics_exactly_on_violated_preconditions:
  fixes u :: "'a::field ProjectiveGroupElement"
  assumes "length b = 32"
  shows "((\<exists>m. nonAdjacentForm_bytes b w = Some (Inl m)) \<longleftrightarrow> w < 2 \<or> 8 < w \<or> 127 < b ! 31)
    \<and> ((\<exists>ds. nonAdjacentForm_bytes b w = Some (Inr ds)) \<longleftrightarrow> 2 \<le> w \<and> w \<le> 8 \<and> b ! 31 \<le> 127)
    \<and> ((\<exists>m. signedRadix16_bytes b = Inl m) \<longleftrightarrow> 127 < b ! 31)
    \<and> ((\<exists>ds. signedRadix16_bytes b = Inr ds) \<longleftrightarrow> b ! 31 \<le> 127)
    \<and> ((\<exists>m. ProjectiveGroupElement_DoubleZ1 u = Inl m) \<longleftrightarrow> Proj_Z u \<noteq> 1)
    \<and> ((\<exists>v. ProjectiveGroupElement_DoubleZ1 u = Inr v) \<longleftrightarrow> Proj_Z u = 1)
    \<and> ((\<exists>m. Scalar_nonAdjacentForm sc w = Some (Inl m)) \<longleftrightarrow> w < 2 \<or> 8 < w)
    \<and> ((\<exists>ds. Scalar_nonAdjacentForm sc w = Some (Inr ds)) \<longleftrightarrow> 2 \<le> w \<and> w \<le> 8)
    \<and> (\<exists>ds. Scalar_signedRadix16 sc = Inr ds)"
proof -
  have n1: "(\<exists>m. nonAdjacentForm_bytes c w = Some (Inl m)) \<longleftrightarrow> w < 2 \<or> 8 < w \<or> 127 < c ! 31" for c
    by (rule nonAdjacentForm_bytes_panics)
  have n2: "(\<exists>ds. nonAdjacentForm_bytes c w = Some (Inr ds)) \<longleftrightarrow> 2 \<le> w \<and> w \<le> 8 \<and> c ! 31 \<le> 127"
    if "length c = 32" for c
  proof
    assume "\<exists>ds. nonAdjacentForm_bytes c w = Some (Inr ds)"
    then have "\<not> (\<exists>m. nonAdjacentForm_bytes c w = Some (Inl m))" by auto
    then show "2 \<le> w \<and> w \<le> 8 \<and> c ! 31 \<le> 127" unfolding n1 by auto
  next
    assume "2 \<le> w \<and> w \<le> 8 \<and> c ! 31 \<le> 127"
    then show "\<exists>ds. nonAdjacentForm_bytes c w = Some (Inr ds)"
      using nonAdjacentForm_bytes_digits[OF that, of w] by blast
  qed
  have s1: "(\<exists>m. signedRadix16_bytes c = Inl m) \<longleftrightarrow> 127 < c ! 31" for c
    by (rule signedRadix16_bytes_panics)
  have s2: "(\<exists>ds. signedRadix16_bytes c = Inr ds) \<longleftrightarrow> c ! 31 \<le> 127" for c
    using s1[of c] by (cases "signedRadix16_bytes c") auto
  have d1: "(\<exists>m. ProjectiveGroupElement_DoubleZ1 u = Inl m) \<longleftrightarrow> Proj_Z u \<noteq> 1"
    by (rule DoubleZ1_panics)
  have d2: "(\<exists>v. ProjectiveGroupElement_DoubleZ1 u = Inr v) \<longleftrightarrow> Proj_Z u = 1"
    using d1 by (cases "ProjectiveGroupElement_DoubleZ1 u") auto
  note c = Scalar_Bytes_canonical(1)[of sc] Scalar_Bytes_top_byte[of sc]
  have e1: "(\<exists>m. Scalar_nonAdjacentForm sc w = Some (Inl m)) \<longleftrightarrow> w < 2 \<or> 8 < w"
    unfolding Scalar_nonAdjacentForm_def n1 using c(2) by auto
  have e2: "(\<exists>ds. Scalar_nonAdjacentForm sc w = Some (Inr ds)) \<longleftrightarrow> 2 \<le> w \<and> w \<le> 8"
    unfolding Scalar_nonAdjacentForm_def n2[OF c(1)] using c(2) by auto
  have e3: "\<exists>ds. Scalar_signedRadix16 sc = Inr ds"
    unfolding Scalar_signedRadix16_def s2 by (rule c(2))
  show ?thesis using n1[of b] n2[OF assms] s1[of b] s2[of b] d1 d2 e1 e2 e3 by blast
qed

text \<open>
  On the 32 bytes \<open>0xff\<close> both expansions panic, and \<open>DoubleZ1\<close> panics on a rational
  point with \<open>Z = 2\<close>.
\<close>

theorem panics_exactly_on_violated_preconditions_witness:
  "length all_ones_bytes = 32
   \<and> (\<exists>m. nonAdjacentForm_bytes all_ones_bytes 5 = Some (Inl m))
   \<and> (\<exists>m. signedRadix16_bytes all_ones_bytes = Inl m)
   \<and> (\<exists>m. ProjectiveGroupElement_DoubleZ1 \<lparr>Proj_X = 0, Proj_Y = 1, Proj_Z = (2::rat)\<rparr> = Inl m)
   \<and> (\<exists>v. ProjectiveGroupElement_DoubleZ1 \<lparr>Proj_X = 0, Proj_Y = 1, Proj_Z = (1::rat)\<rparr> = Inr v)"
proof -
  have l: "length all_ones_bytes = 32" by (simp add: all_ones_bytes_def)
  have t: "127 < all_ones_bytes ! 31" by (simp add: all_ones_bytes_def)
  from panics_exactly_on_violated_preconditions[OF l, of 5
      "\<lparr>Proj_X = 0, Proj_Y = 1, Proj_Z = (2::rat)\<rparr>"]
    panics_exactly_on_violated_preconditions[OF l, of 5
      "\<lparr>Proj_X = 0, Proj_Y = 1, Proj_Z = (1::rat)\<rparr>"]
    l t show ?thesis by simp
qed
end
